theory Spec2Isabelle
  imports Main "HOL-Library.Word"
begin

section \<open>Machine integers\<close>

text \<open>
  The sources are C++ for an LP64 target: \<^verbatim>\<open>std::size_t\<close> is an unsigned 64-bit
  integer, \<^verbatim>\<open>unsigned int\<close> an unsigned 32-bit integer and \<^verbatim>\<open>int\<close> a 32-bit
  two's-complement integer (read with \<open>sint\<close>). Arithmetic on words wraps around as
  the unsigned arithmetic of C++ does.

  C++ member names end in an underscore (\<^verbatim>\<open>count_\<close>, \<^verbatim>\<open>waiters_\<close>,
  \<^verbatim>\<open>tasks_\<close>, \<^verbatim>\<open>threads_\<close>, \<^verbatim>\<open>vertexCount_\<close>, \<^verbatim>\<open>matrix_\<close>); such
  names are not identifiers of the term language, so the records below carry them as
  \<open>wg_count\<close>, \<open>wg_waiters\<close>, \<open>tp_tasks\<close>, \<open>tp_threads\<close>, \<open>vertexCount\<close>
  and \<open>matrix\<close>.
\<close>

type_synonym size_t = "64 word"
type_synonym unsigned_int = "32 word"
type_synonym c_int = "32 word"

section \<open>bedrock.h: UnboundedBlockingQueue\<close>

text \<open>
  \<^verbatim>\<open>Mutex<std::pair<State, Container>> queue_\<close>: the lifecycle state and the
  container, a \<^verbatim>\<open>std::queue\<close> whose front is the head of the list. Every member
  function takes the lock for its whole body, so each call is one atomic transition of
  the pair; the condition variable \<^verbatim>\<open>waiter_\<close> carries no data.
\<close>

datatype State = RUNNING | STOPPED | FORCE_STOPPED

type_synonym 'a UnboundedBlockingQueue = "State \<times> 'a list"

definition UnboundedBlockingQueue :: "'a UnboundedBlockingQueue" where
  "UnboundedBlockingQueue = (RUNNING, [])"

definition Emplace :: "'a \<Rightarrow> 'a UnboundedBlockingQueue \<Rightarrow> bool \<times> 'a UnboundedBlockingQueue" where
  "Emplace v q =
     (if fst q \<noteq> RUNNING then (False, q)
      else (True, (fst q, snd q @ [v])))"

definition Push :: "'a \<Rightarrow> 'a UnboundedBlockingQueue \<Rightarrow> bool \<times> 'a UnboundedBlockingQueue" where
  "Push v q = Emplace v q"

definition Stop :: "State \<Rightarrow> 'a UnboundedBlockingQueue \<Rightarrow> 'a UnboundedBlockingQueue" where
  "Stop st q = (st, snd q)"

text \<open>
  \<^verbatim>\<open>Pop\<close> waits on the condition variable until the state is not RUNNING or the
  container is not empty. \<open>None\<close> is a call that stays blocked in the given queue
  state; \<open>Some (r, q')\<close> is a call that returns \<open>r\<close> (\<^verbatim>\<open>std::nullopt\<close> is the
  inner \<open>None\<close>) and leaves the queue as \<open>q'\<close>.
\<close>

definition Pop :: "'a UnboundedBlockingQueue \<Rightarrow> ('a option \<times> 'a UnboundedBlockingQueue) option" where
  "Pop q =
     (if \<not> (fst q \<noteq> RUNNING \<or> snd q \<noteq> []) then None
      else if fst q = FORCE_STOPPED then Some (None, q)
      else if snd q \<noteq> [] then Some (Some (hd (snd q)), (fst q, tl (snd q)))
      else Some (None, q))"

text \<open>
  Histories of calls on one queue, in the order in which the calls take the lock. A
  \<^verbatim>\<open>Pop\<close> that finds its wait condition false stays blocked and changes nothing.
\<close>

datatype 'a queue_call = CallPush 'a | CallPop | CallStop State

datatype 'a queue_ret = RetPush bool | RetPop "'a option" | RetBlocked | RetStop

fun run_call :: "'a queue_call \<Rightarrow> 'a UnboundedBlockingQueue \<Rightarrow> 'a queue_ret \<times> 'a UnboundedBlockingQueue" where
  "run_call (CallPush v) q = (RetPush (fst (Push v q)), snd (Push v q))"
| "run_call CallPop q = (case Pop q of None \<Rightarrow> (RetBlocked, q) | Some (r, q') \<Rightarrow> (RetPop r, q'))"
| "run_call (CallStop st) q = (RetStop, Stop st q)"

fun run_calls :: "'a queue_call list \<Rightarrow> 'a UnboundedBlockingQueue \<Rightarrow> 'a queue_ret list \<times> 'a UnboundedBlockingQueue" where
  "run_calls [] q = ([], q)"
| "run_calls (c # cs) q =
     (let (r, q') = run_call c q; (rs, q'') = run_calls cs q' in (r # rs, q''))"

text \<open>\<open>Pop_n n\<close>: \<open>n\<close> calls of \<^verbatim>\<open>Pop\<close> in a row; blocked as soon as one of them blocks.\<close>

fun Pop_n :: "nat \<Rightarrow> 'a UnboundedBlockingQueue \<Rightarrow> ('a option list \<times> 'a UnboundedBlockingQueue) option" where
  "Pop_n 0 q = Some ([], q)"
| "Pop_n (Suc n) q =
     (case Pop q of
        None \<Rightarrow> None
      | Some (r, q') \<Rightarrow> (case Pop_n n q' of None \<Rightarrow> None | Some (rs, q'') \<Rightarrow> Some (r # rs, q'')))"

section \<open>bedrock.h, bedrock.cpp: ThreadPool\<close>

text \<open>
  The constructor's loop \<^verbatim>\<open>for (std::size_t i = 0; i < num_threads; ++i)\<close> starts
  one thread per iteration; a thread of the pool is recorded as the value of \<open>i\<close> it
  was started at. Exhausted resources (a count above \<^verbatim>\<open>max_size()\<close> in
  \<^verbatim>\<open>reserve\<close>, no memory, no further thread) are left out of the model.
\<close>

record 'a ThreadPool =
  tp_tasks :: "'a UnboundedBlockingQueue"
  tp_threads :: "size_t list"

function spawn_threads :: "size_t \<Rightarrow> size_t \<Rightarrow> size_t list \<Rightarrow> size_t list" where
  "spawn_threads i num_threads ts =
     (if i < num_threads then spawn_threads (i + 1) num_threads (ts @ [i]) else ts)"
  by pat_completeness auto
termination
proof (relation "measure (\<lambda>(i, n, ts). unat n - unat i)")
  show "wf (measure (\<lambda>(i, n, ts). unat n - unat i))"
    by simp
next
  fix i num_threads :: size_t and ts :: "size_t list"
  assume "i < num_threads"
  then have "unat num_threads - unat (i + 1) < unat num_threads - unat i"
    by unat_arith
  then show "((i + 1, num_threads, ts @ [i]), (i, num_threads, ts))
      \<in> measure (\<lambda>(i, n, ts). unat n - unat i)"
    by simp
qed

declare spawn_threads.simps [simp del]

definition ThreadPool :: "size_t \<Rightarrow> 'a ThreadPool" where
  "ThreadPool num_threads =
     \<lparr>tp_tasks = UnboundedBlockingQueue, tp_threads = spawn_threads 0 num_threads []\<rparr>"

text \<open>\<^verbatim>\<open>ThreadPool::Push\<close> forwards to the queue and drops its boolean result.\<close>

definition ThreadPool_Push :: "'a \<Rightarrow> 'a ThreadPool \<Rightarrow> 'a ThreadPool" where
  "ThreadPool_Push task pool = pool\<lparr>tp_tasks := snd (Push task (tp_tasks pool))\<rparr>"

text \<open>
  The body of every pool thread, \<^verbatim>\<open>while (auto task = tasks_.Pop()) (*task)();\<close>,
  run by one thread on a queue that nobody else touches meanwhile. Running a task is
  recorded by appending it to the list of executed tasks. The thread ends either
  blocked inside \<^verbatim>\<open>Pop\<close> or having left the loop.
\<close>

datatype worker_status = WorkerWaiting | WorkerExited

function worker :: "'a UnboundedBlockingQueue \<Rightarrow> 'a list \<Rightarrow> worker_status \<times> 'a list \<times> 'a UnboundedBlockingQueue" where
  "worker q executed =
     (case Pop q of
        None \<Rightarrow> (WorkerWaiting, executed, q)
      | Some (None, q') \<Rightarrow> (WorkerExited, executed, q')
      | Some (Some task, q') \<Rightarrow> worker q' (executed @ [task]))"
  by pat_completeness auto
termination
  by (relation "measure (\<lambda>(q, executed). length (snd q))")
     (auto simp: Pop_def split: if_splits)

declare worker.simps [simp del]

text \<open>
  Graph.cpp computes the worker count once, at static initialisation:
  \<^verbatim>\<open>std::getenv("TP_SIZE")\<close>, \<^verbatim>\<open>std::atoi\<close> and
  \<^verbatim>\<open>std::thread::hardware_concurrency()\<close> belong to the C++ library, so their
  results are parameters: \<open>env\<close> is \<open>None\<close> when the variable is unset and otherwise
  the \<^verbatim>\<open>int\<close> that \<^verbatim>\<open>atoi\<close> returned. The \<^verbatim>\<open>static_cast<unsigned int>\<close>
  keeps the bits.
\<close>

definition THREAD_COUNT :: "c_int option \<Rightarrow> unsigned_int \<Rightarrow> unsigned_int" where
  "THREAD_COUNT env hardware_concurrency =
     (case env of
        Some result \<Rightarrow> if 0 <s result then result else hardware_concurrency
      | None \<Rightarrow> hardware_concurrency)"

text \<open>\<^verbatim>\<open>static auto pool = br::ThreadPool(THREAD_COUNT)\<close>: the count widens to \<^verbatim>\<open>size_t\<close>.\<close>

definition pool :: "c_int option \<Rightarrow> unsigned_int \<Rightarrow> 'a ThreadPool" where
  "pool env hardware_concurrency = ThreadPool (ucast (THREAD_COUNT env hardware_concurrency))"

section \<open>bedrock.h, bedrock.cpp: WaitGroup\<close>

record WaitGroup =
  wg_count :: size_t
  wg_waiters :: size_t

definition WaitGroup :: "size_t \<Rightarrow> WaitGroup" where
  "WaitGroup count = \<lparr>wg_count = count, wg_waiters = 0\<rparr>"

definition Add :: "size_t \<Rightarrow> WaitGroup \<Rightarrow> WaitGroup" where
  "Add count wg = wg\<lparr>wg_count := wg_count wg + count\<rparr>"

definition Done :: "WaitGroup \<Rightarrow> WaitGroup" where
  "Done wg = wg\<lparr>wg_count := wg_count wg - 1\<rparr>"

text \<open>
  \<^verbatim>\<open>Wait\<close> takes the lock, increments \<^verbatim>\<open>waiters_\<close> and sleeps on the condition
  variable with the predicate \<^verbatim>\<open>count_ == 0\<close>; while it sleeps the lock is free and
  other threads call \<^verbatim>\<open>Add\<close> and \<^verbatim>\<open>Done\<close>. \<open>Wait_enter\<close> is the part before the
  sleep. \<open>Wait_leave\<close> is an evaluation of the predicate under the lock: \<open>None\<close> when
  it is false and the thread goes on sleeping, otherwise the group after
  \<^verbatim>\<open>--waiters_\<close>, with which the call returns. \<open>Wait\<close> is a call during which no
  other thread touches the group.
\<close>

definition Wait_enter :: "WaitGroup \<Rightarrow> WaitGroup" where
  "Wait_enter wg = wg\<lparr>wg_waiters := wg_waiters wg + 1\<rparr>"

definition Wait_leave :: "WaitGroup \<Rightarrow> WaitGroup option" where
  "Wait_leave wg = (if wg_count wg = 0 then Some (wg\<lparr>wg_waiters := wg_waiters wg - 1\<rparr>) else None)"

definition Wait :: "WaitGroup \<Rightarrow> WaitGroup option" where
  "Wait wg = Wait_leave (Wait_enter wg)"

text \<open>Histories of \<^verbatim>\<open>Add\<close> and \<^verbatim>\<open>Done\<close> calls on one group, in lock order.\<close>

datatype wg_call = CallAdd size_t | CallDone

fun wg_run_call :: "wg_call \<Rightarrow> WaitGroup \<Rightarrow> WaitGroup" where
  "wg_run_call (CallAdd k) wg = Add k wg"
| "wg_run_call CallDone wg = Done wg"

fun wg_run_calls :: "wg_call list \<Rightarrow> WaitGroup \<Rightarrow> WaitGroup" where
  "wg_run_calls [] wg = wg"
| "wg_run_calls (c # cs) wg = wg_run_calls cs (wg_run_call c wg)"

text \<open>The sum of the added counts and the number of \<^verbatim>\<open>Done\<close> calls of a history.\<close>

fun added :: "wg_call list \<Rightarrow> nat" where
  "added [] = 0"
| "added (CallAdd k # cs) = unat k + added cs"
| "added (CallDone # cs) = added cs"

fun dones :: "wg_call list \<Rightarrow> nat" where
  "dones [] = 0"
| "dones (CallAdd k # cs) = dones cs"
| "dones (CallDone # cs) = Suc (dones cs)"

text \<open>
  \<open>no_wrap c cs\<close>: starting from a counter of value \<open>c\<close>, no \<^verbatim>\<open>Add\<close> of the history
  carries the counter past \<open>2 ^ 64 - 1\<close> and no \<^verbatim>\<open>Done\<close> finds it at 0.
\<close>

fun no_wrap :: "nat \<Rightarrow> wg_call list \<Rightarrow> bool" where
  "no_wrap c [] = True"
| "no_wrap c (CallAdd k # cs) = (c + unat k < 2 ^ 64 \<and> no_wrap (c + unat k) cs)"
| "no_wrap c (CallDone # cs) = (0 < c \<and> no_wrap (c - 1) cs)"

section \<open>Graph.h, Graph.cpp: Graph\<close>

text \<open>
  Vertex numbers and \<^verbatim>\<open>vertexCount_\<close> are C++ \<^verbatim>\<open>int\<close>s. The program only
  compares them and uses them as indices, so they are carried by their values, as
  \<open>int\<close>; the constructor's argument is a 32-bit word, which bounds every vertex
  count by \<open>2 ^ 31 - 1\<close>. A \<^verbatim>\<open>std::vector\<close> is a list; an index outside a vector
  is undefined behaviour in C++ and a \<open>failure\<close> here.
\<close>

datatype failure =
    LengthError        \<comment> \<open>\<^verbatim>\<open>std::length_error\<close> thrown by a vector constructor\<close>
  | OutOfRange         \<comment> \<open>an index outside a vector\<close>
  | DivisionByZero     \<comment> \<open>an integer division by 0\<close>
  | DanglingReference  \<comment> \<open>a task still runs when the objects it refers to are destroyed\<close>
  | NeverReturns       \<comment> \<open>a loop that does not end, or a wait that is never satisfied\<close>

record Graph =
  vertexCount :: int
  matrix :: "int list list"

text \<open>
  \<^verbatim>\<open>Graph(int vertices) : vertexCount_(vertices), matrix_(vertices)\<close>. The vector
  constructor takes a \<^verbatim>\<open>size_t\<close>: a negative argument converts to a size above
  \<^verbatim>\<open>max_size()\<close>, and the constructor throws.
\<close>

definition Graph :: "c_int \<Rightarrow> failure + Graph" where
  "Graph vertices =
     (if vertices <s 0 then Inl LengthError
      else Inr \<lparr>vertexCount = sint vertices, matrix = replicate (nat (sint vertices)) []\<rparr>)"

definition addEdge :: "int \<Rightarrow> int \<Rightarrow> Graph \<Rightarrow> failure + Graph" where
  "addEdge src dest g =
     (if src < 0 \<or> dest < 0 \<or> src \<ge> vertexCount g \<or> dest \<ge> vertexCount g then Inr g
      else if int (length (matrix g)) \<le> src then Inl OutOfRange
      else let vec = matrix g ! nat src in
        if dest \<notin> set vec then Inr (g\<lparr>matrix := (matrix g)[nat src := vec @ [dest]]\<rparr>)
        else Inr g)"

definition vertices :: "Graph \<Rightarrow> int" where
  "vertices g = vertexCount g"

text \<open>
  The members of \<^verbatim>\<open>Graph\<close> are private: every graph object is made by the
  constructor and changed by \<^verbatim>\<open>addEdge\<close> only. \<open>build\<close> is such a history, the
  constructor followed by a list of \<^verbatim>\<open>addEdge(src, dest)\<close> calls.
\<close>

fun addEdges :: "(int \<times> int) list \<Rightarrow> Graph \<Rightarrow> failure + Graph" where
  "addEdges [] g = Inr g"
| "addEdges ((src, dest) # es) g =
     (case addEdge src dest g of Inl e \<Rightarrow> Inl e | Inr g' \<Rightarrow> addEdges es g')"

definition build :: "c_int \<Rightarrow> (int \<times> int) list \<Rightarrow> failure + Graph" where
  "build n es = (case Graph n of Inl e \<Rightarrow> Inl e | Inr g \<Rightarrow> addEdges es g)"

text \<open>
  The vertices marked in a vector of flags, for \<^verbatim>\<open>std::vector<char>\<close> (0 or 1) and
  for \<^verbatim>\<open>std::vector<AlignedBool>\<close> alike.
\<close>

fun marked_from :: "nat \<Rightarrow> bool list \<Rightarrow> int list" where
  "marked_from i [] = []"
| "marked_from i (b # bs) = (if b then [int i] else []) @ marked_from (Suc i) bs"

definition marked :: "bool list \<Rightarrow> int set" where
  "marked flags = set (marked_from 0 flags)"

subsection \<open>The sequential traversal \<^verbatim>\<open>Graph::bfs\<close>\<close>

text \<open>
  The inner loop \<^verbatim>\<open>for (int n : matrix_[u]) if (!visited[n]) { visited[n] = 1; q.push(n); }\<close>
  over the neighbours that remain.
\<close>

fun bfs_scan :: "int list \<Rightarrow> bool list \<Rightarrow> int list \<Rightarrow> failure + (bool list \<times> int list)" where
  "bfs_scan [] visited q = Inr (visited, q)"
| "bfs_scan (n # ns) visited q =
     (if n < 0 \<or> int (length visited) \<le> n then Inl OutOfRange
      else if \<not> visited ! nat n then bfs_scan ns (visited[nat n := True]) (q @ [n])
      else bfs_scan ns visited q)"

lemma bfs_scan_count:
  "bfs_scan ns visited q = Inr (visited', q') \<Longrightarrow>
   length visited' = length visited \<and>
   count_list visited' False + length q' = count_list visited False + length q"
proof (induction ns arbitrary: visited q)
  case Nil
  then show ?case by simp
next
  case (Cons n ns)
  from Cons.prems have range: "\<not> (n < 0 \<or> int (length visited) \<le> n)"
    by (auto split: if_splits)
  then have index: "nat n < length visited"
    by auto
  show ?case
  proof (cases "visited ! nat n")
    case True
    with Cons.prems range have "bfs_scan ns visited q = Inr (visited', q')"
      by simp
    then show ?thesis
      by (rule Cons.IH)
  next
    case False
    with Cons.prems range have "bfs_scan ns (visited[nat n := True]) (q @ [n]) = Inr (visited', q')"
      by simp
    then have "length visited' = length (visited[nat n := True]) \<and>
        count_list visited' False + length q' =
          count_list (visited[nat n := True]) False + length (q @ [n])"
      by (rule Cons.IH)
    moreover from index False
    have "Suc (count_list (visited[nat n := True]) False) = count_list visited False"
    proof (induction visited arbitrary: n)
      case Nil
      then show ?case by simp
    next
      case (Cons b bs)
      show ?case
      proof (cases "nat n")
        case 0
        with Cons.prems show ?thesis by simp
      next
        case (Suc m)
        with Cons.prems Cons.IH [of "int m"] show ?thesis by simp
      qed
    qed
    ultimately show ?thesis
      by simp
  qed
qed

text \<open>The loop \<^verbatim>\<open>while (!q.empty())\<close>; the front of the queue is the head of the list.\<close>

function bfs_loop :: "Graph \<Rightarrow> bool list \<Rightarrow> int list \<Rightarrow> failure + bool list" where
  "bfs_loop g visited [] = Inr visited"
| "bfs_loop g visited (u # q) =
     (if u < 0 \<or> int (length (matrix g)) \<le> u then Inl OutOfRange
      else case bfs_scan (matrix g ! nat u) visited q of
             Inl e \<Rightarrow> Inl e
           | Inr (visited', q') \<Rightarrow> bfs_loop g visited' q')"
  by pat_completeness auto
termination
proof (relation "measure (\<lambda>(g, visited, q). count_list visited False + length q)")
  show "wf (measure (\<lambda>(g, visited, q). count_list visited False + length q))"
    by simp
next
  fix g :: Graph and visited visited' :: "bool list" and u :: int and q q' :: "int list"
    and x :: "bool list \<times> int list"
  assume "bfs_scan (matrix g ! nat u) visited q = Inr x" and "(visited', q') = x"
  then have "bfs_scan (matrix g ! nat u) visited q = Inr (visited', q')"
    by simp
  then have "count_list visited' False + length q' = count_list visited False + length q"
    by (simp add: bfs_scan_count)
  then show "((g, visited', q'), (g, visited, u # q))
      \<in> measure (\<lambda>(g, visited, q). count_list visited False + length q)"
    by simp
qed

declare bfs_loop.simps [simp del]

text \<open>
  \<^verbatim>\<open>Graph::bfs\<close> returns nothing; the model returns the vector \<^verbatim>\<open>visited\<close> as it
  is when the function returns, and the empty vector when the function returns before
  allocating it.
\<close>

definition bfs :: "Graph \<Rightarrow> int \<Rightarrow> failure + bool list" where
  "bfs g startVertex =
     (if startVertex < 0 \<or> startVertex \<ge> vertexCount g then Inr []
      else let visited = replicate (nat (vertexCount g)) False;
               visited = visited[nat startVertex := True];
               q = [startVertex]
           in bfs_loop g visited q)"

subsection \<open>The parallel traversal \<^verbatim>\<open>Graph::parallelBFS\<close>\<close>

text \<open>
  One call of \<^verbatim>\<open>parallelBFS\<close> is run by the calling thread, the driver, and by the
  threads of the pool, which execute the chunk tasks the driver pushes. The shared
  objects of a level are the vector \<^verbatim>\<open>visited\<close> of atomic flags, the buffer
  \<^verbatim>\<open>nextLevel\<close> behind its mutex, and the wait group \<^verbatim>\<open>wg\<close>; the graph and
  \<^verbatim>\<open>currentLevel\<close> are only read while the tasks run.

  A task touches a shared object in three places: the
  \<^verbatim>\<open>compare_exchange_strong\<close> on one flag, the insertion into \<^verbatim>\<open>nextLevel\<close> under
  the lock, and \<^verbatim>\<open>wg.Done()\<close> under the group's lock. Each is atomic, and on a
  single atomic object even relaxed read-modify-write operations take effect in one
  total order; so a run of a level is an interleaving of such steps of its tasks.

  A task is the state of one execution of the lambda: \<open>chunk\<close> holds
  \<^verbatim>\<open>currentLevel[i]\<close>, \<open>\<dots>\<close>, \<^verbatim>\<open>currentLevel[chunkEnd - 1]\<close> for the current
  \<open>i\<close> of the outer loop, \<open>row\<close> the part of \<^verbatim>\<open>matrix_[u]\<close> that the inner loop
  has not reached yet, and \<open>stage\<close> tells the loops (\<open>Scanning\<close>) from the call of
  \<^verbatim>\<open>wg.Done()\<close> that follows the merge (\<open>Signalling\<close>) and from the end of the
  lambda (\<open>Finished\<close>).
\<close>

datatype stage = Scanning | Signalling | Finished

record task =
  chunk :: "int list"
  row :: "int list"
  localNextLevel :: "int list"
  stage :: stage

record level =
  visited :: "bool list"
  nextLevel :: "int list"
  wg :: WaitGroup
  tasks :: "task list"

text \<open>
  \<^verbatim>\<open>visited[v].flag.compare_exchange_strong(expected, true)\<close> with \<^verbatim>\<open>expected\<close>
  false: the flag becomes true if it was false, and the call tells whether it did.
\<close>

definition compare_exchange_strong :: "int \<Rightarrow> bool list \<Rightarrow> failure + (bool \<times> bool list)" where
  "compare_exchange_strong v flags =
     (if v < 0 \<or> int (length flags) \<le> v then Inl OutOfRange
      else if flags ! nat v = False then Inr (True, flags[nat v := True])
      else Inr (False, flags))"

text \<open>
  The next step of task \<open>k\<close>: one \<^verbatim>\<open>compare_exchange_strong\<close> with the
  \<^verbatim>\<open>push_back\<close> that depends on it; or, the row being exhausted, the move of the
  outer loop to its next vertex \<open>u\<close> and row \<^verbatim>\<open>matrix_[u]\<close>; or, the chunk being
  exhausted too, the merge of a non-empty \<^verbatim>\<open>localNextLevel\<close> into
  \<^verbatim>\<open>nextLevel\<close>; or \<^verbatim>\<open>wg.Done()\<close>.
\<close>

definition task_step :: "Graph \<Rightarrow> nat \<Rightarrow> level \<Rightarrow> failure + level" where
  "task_step g k s =
     (let t = tasks s ! k in
      case stage t of
        Finished \<Rightarrow> Inr s
      | Signalling \<Rightarrow> Inr (s\<lparr>wg := Done (wg s), tasks := (tasks s)[k := t\<lparr>stage := Finished\<rparr>]\<rparr>)
      | Scanning \<Rightarrow>
          (case row t of
             v # vs \<Rightarrow>
               (case compare_exchange_strong v (visited s) of
                  Inl e \<Rightarrow> Inl e
                | Inr (won, flags) \<Rightarrow>
                    Inr (s\<lparr>visited := flags,
                           tasks := (tasks s)[k := t\<lparr>row := vs,
                             localNextLevel :=
                               (if won then localNextLevel t @ [v] else localNextLevel t)\<rparr>]\<rparr>))
           | [] \<Rightarrow>
               (case chunk t of
                  u # us \<Rightarrow>
                    if u < 0 \<or> int (length (matrix g)) \<le> u then Inl OutOfRange
                    else Inr (s\<lparr>tasks := (tasks s)[k := t\<lparr>chunk := us, row := matrix g ! nat u\<rparr>]\<rparr>)
                | [] \<Rightarrow>
                    Inr (s\<lparr>nextLevel :=
                             (if localNextLevel t \<noteq> [] then nextLevel s @ localNextLevel t
                              else nextLevel s),
                           tasks := (tasks s)[k := t\<lparr>stage := Signalling\<rparr>]\<rparr>))))"

text \<open>
  The pool is a static object, RUNNING until the program ends, with one thread per
  unit of the worker count; its queue hands every pushed task to one of the threads.
  Which task makes the next step is the scheduler's choice. The model lets every task
  that has not finished make the next step, which covers every order the pool's
  threads can produce (a level has at most as many tasks as the pool has threads,
  \<open>level_tasks_le_workers\<close>), and reads the choices from a list of numbers \<open>sched\<close>: the
  number \<open>c\<close> at its head picks the task at position \<open>c mod m\<close> among the \<open>m\<close>
  unfinished ones (an exhausted list picks the first).
\<close>

definition runnable :: "task list \<Rightarrow> nat list" where
  "runnable ts = filter (\<lambda>k. stage (ts ! k) \<noteq> Finished) [0..<length ts]"

fun choice :: "nat list \<Rightarrow> nat" where
  "choice [] = 0"
| "choice (c # sched) = c"

text \<open>The number of steps a task, and all tasks of a level, still have to make.\<close>

definition task_work :: "Graph \<Rightarrow> task \<Rightarrow> nat" where
  "task_work g t =
     (case stage t of
        Finished \<Rightarrow> 0
      | Signalling \<Rightarrow> 1
      | Scanning \<Rightarrow> 2 + length (row t) + (\<Sum>u\<leftarrow>chunk t. 1 + length (matrix g ! nat u)))"

definition work :: "Graph \<Rightarrow> level \<Rightarrow> nat" where
  "work g s = (\<Sum>t\<leftarrow>tasks s. task_work g t)"

lemma sum_list_map_update:
  fixes f :: "'a \<Rightarrow> nat"
  shows "k < length xs \<Longrightarrow> (\<Sum>x\<leftarrow>xs[k := y]. f x) + f (xs ! k) = (\<Sum>x\<leftarrow>xs. f x) + f y"
proof (induction xs arbitrary: k)
  case Nil
  then show ?case by simp
next
  case (Cons x xs)
  then show ?case
    by (cases k) auto
qed

lemma runnable_iff: "k \<in> set (runnable ts) \<longleftrightarrow> k < length ts \<and> stage (ts ! k) \<noteq> Finished"
  by (auto simp: runnable_def)

lemma task_step_work:
  assumes "k < length (tasks s)" and "stage (tasks s ! k) \<noteq> Finished"
    and "task_step g k s = Inr s'"
  shows "work g s' < work g s"
proof -
  let ?t = "tasks s ! k"
  from assms(3) obtain t' where upd: "tasks s' = (tasks s)[k := t']"
    and less: "task_work g t' < task_work g ?t"
    using assms(2)
    by (auto simp: task_step_def Let_def task_work_def compare_exchange_strong_def
        split: stage.splits list.splits sum.splits if_splits prod.splits)
  from assms(1) have "work g s' + task_work g ?t = work g s + task_work g t'"
    unfolding work_def upd by (rule sum_list_map_update)
  with less show ?thesis
    by simp
qed

text \<open>
  A level, from the point where its tasks are pushed to the return of \<^verbatim>\<open>wg.Wait()\<close>
  in the driver. \<^verbatim>\<open>Wait\<close> returns when it finds the counter at 0; the driver then
  leaves the loop body and destroys \<^verbatim>\<open>nextLevel\<close> and \<^verbatim>\<open>wg\<close>, which a task that
  has not finished still refers to. While the counter is not 0 the driver sleeps, for
  ever if no task is left to wake it.
\<close>

function level_run :: "Graph \<Rightarrow> nat list \<Rightarrow> level \<Rightarrow> failure + (nat list \<times> level)" where
  "level_run g sched s =
     (case Wait (wg s) of
        Some w \<Rightarrow>
          if runnable (tasks s) = [] then Inr (sched, s\<lparr>wg := w\<rparr>) else Inl DanglingReference
      | None \<Rightarrow>
          if runnable (tasks s) = [] then Inl NeverReturns
          else
            (case task_step g (runnable (tasks s) ! (choice sched mod length (runnable (tasks s)))) s of
               Inl e \<Rightarrow> Inl e
             | Inr s' \<Rightarrow> level_run g (tl sched) s'))"
  by pat_completeness auto
termination
proof (relation "measure (\<lambda>(g, sched, s). work g s)")
  show "wf (measure (\<lambda>(g, sched, s). work g s))"
    by simp
next
  fix g :: Graph and sched :: "nat list" and s s' :: level
  let ?ks = "runnable (tasks s)"
  let ?k = "?ks ! (choice sched mod length ?ks)"
  assume "?ks \<noteq> []" and step: "task_step g ?k s = Inr s'"
  then have "?k \<in> set ?ks"
    by simp
  then have "?k < length (tasks s)" "stage (tasks s ! ?k) \<noteq> Finished"
    by (simp_all add: runnable_iff)
  with step have "work g s' < work g s"
    by (rule task_step_work [rotated 2])
  then show "((g, tl sched, s'), (g, sched, s)) \<in> measure (\<lambda>(g, sched, s). work g s)"
    by simp
qed

declare level_run.simps [simp del]

text \<open>
  The loop \<^verbatim>\<open>for (size_t chunkStart = 0; chunkStart < currentLevel.size(); chunkStart += chunkSize)\<close>
  with \<open>n\<close> for \<^verbatim>\<open>currentLevel.size()\<close>; \<open>pushed\<close> collects the pairs
  \<^verbatim>\<open>(chunkStart, chunkEnd)\<close> captured by the tasks pushed so far. \<open>None\<close> is a loop
  that does not end.
\<close>

partial_function (option) push_chunks ::
  "size_t \<Rightarrow> size_t \<Rightarrow> size_t \<Rightarrow> (size_t \<times> size_t) list \<Rightarrow> (size_t \<times> size_t) list option" where
  "push_chunks chunkStart chunkSize n pushed =
     (if chunkStart < n
      then push_chunks (chunkStart + chunkSize) chunkSize n
             (pushed @ [(chunkStart, min (chunkStart + chunkSize) n)])
      else Some pushed)"

declare push_chunks.simps [code]

text \<open>
  The task pushed for a pair of bounds: its outer loop runs over
  \<^verbatim>\<open>currentLevel[chunkStart]\<close>, \<open>\<dots>\<close>, \<^verbatim>\<open>currentLevel[chunkEnd - 1]\<close>, which lie
  inside the vector since \<^verbatim>\<open>chunkEnd\<close> is at most its size.
\<close>

definition new_task :: "int list \<Rightarrow> size_t \<times> size_t \<Rightarrow> task" where
  "new_task currentLevel bounds =
     \<lparr>chunk = take (unat (snd bounds) - unat (fst bounds)) (drop (unat (fst bounds)) currentLevel),
      row = [], localNextLevel = [], stage = Scanning\<rparr>"

text \<open>
  The head of the loop body, up to the last \<^verbatim>\<open>pool.Push\<close>: the empty buffer, the
  chunk size computed in \<^verbatim>\<open>size_t\<close> from the size of the frontier and the global
  \<^verbatim>\<open>THREAD_COUNT\<close> (the parameter \<open>thread_count\<close>), the wait group and the tasks.
\<close>

definition start_level :: "unsigned_int \<Rightarrow> bool list \<Rightarrow> int list \<Rightarrow> failure + level" where
  "start_level thread_count flags currentLevel =
     (let n = of_nat (length currentLevel) :: size_t in
      if (ucast thread_count :: size_t) = 0 then Inl DivisionByZero
      else
        let chunkSize = (n + ucast thread_count - 1) div ucast thread_count in
        if chunkSize = 0 then Inl DivisionByZero
        else
          (case push_chunks 0 chunkSize n [] of
             None \<Rightarrow> Inl NeverReturns
           | Some pushed \<Rightarrow>
               Inr \<lparr>visited = flags, nextLevel = [],
                    wg = WaitGroup (1 + (n - 1) div chunkSize),
                    tasks = map (new_task currentLevel) pushed\<rparr>))"

text \<open>
  Every successful exchange turns one flag from false to true and adds one entry to a
  local list, which later moves to \<^verbatim>\<open>nextLevel\<close>: the number of false flags plus
  the lengths of \<^verbatim>\<open>nextLevel\<close> and of the local lists not merged yet is constant
  over a level.
\<close>

definition unmerged :: "task \<Rightarrow> nat" where
  "unmerged t = (if stage t = Scanning then length (localNextLevel t) else 0)"

definition unclaimed :: "level \<Rightarrow> nat" where
  "unclaimed s = count_list (visited s) False + length (nextLevel s) + (\<Sum>t\<leftarrow>tasks s. unmerged t)"

lemma count_list_claim:
  "i < length flags \<Longrightarrow> \<not> flags ! i \<Longrightarrow>
   Suc (count_list (flags[i := True]) False) = count_list flags False"
proof (induction flags arbitrary: i)
  case Nil
  then show ?case by simp
next
  case (Cons b bs)
  then show ?case
    by (cases i) auto
qed

lemma task_step_unclaimed:
  assumes "k < length (tasks s)" and "task_step g k s = Inr s'"
  shows "unclaimed s' = unclaimed s \<and> length (visited s') = length (visited s)"
proof (cases "stage (tasks s ! k) = Finished")
  case True
  with assms(2) show ?thesis
    by (simp add: task_step_def)
next
  case False
  let ?t = "tasks s ! k"
  from assms(2) False obtain t' where upd: "tasks s' = (tasks s)[k := t']"
    and eq: "count_list (visited s') False + length (nextLevel s') + unmerged t' =
      count_list (visited s) False + length (nextLevel s) + unmerged ?t"
    and len: "length (visited s') = length (visited s)"
    using count_list_claim [of "nat (hd (row ?t))" "visited s"]
    by (auto simp: task_step_def Let_def unmerged_def compare_exchange_strong_def
        split: stage.splits list.splits sum.splits if_splits prod.splits)
  from assms(1) have "(\<Sum>t\<leftarrow>tasks s'. unmerged t) + unmerged ?t = (\<Sum>t\<leftarrow>tasks s. unmerged t) + unmerged t'"
    unfolding upd by (rule sum_list_map_update)
  with eq len show ?thesis
    by (simp add: unclaimed_def)
qed

lemma level_run_unclaimed:
  "level_run g sched s = Inr (sched', s') \<Longrightarrow>
   unclaimed s' = unclaimed s \<and> length (visited s') = length (visited s)"
proof (induction g sched s rule: level_run.induct)
  case (1 g sched s)
  let ?ks = "runnable (tasks s)"
  let ?k = "?ks ! (choice sched mod length ?ks)"
  show ?case
  proof (cases "Wait (wg s)")
    case (Some w)
    with "1.prems" have "s' = s\<lparr>wg := w\<rparr>"
      by (auto simp: level_run.simps [of g sched s] split: if_splits)
    then show ?thesis
      by (simp add: unclaimed_def)
  next
    case None
    with "1.prems" have ks: "?ks \<noteq> []"
      by (auto simp: level_run.simps [of g sched s] split: if_splits)
    with "1.prems" None obtain s1 where step: "task_step g ?k s = Inr s1"
      and rest: "level_run g (tl sched) s1 = Inr (sched', s')"
      by (auto simp: level_run.simps [of g sched s] split: sum.splits)
    from ks have "?k \<in> set ?ks"
      by simp
    then have "?k < length (tasks s)"
      by (simp add: runnable_iff)
    then have "unclaimed s1 = unclaimed s \<and> length (visited s1) = length (visited s)"
      using step by (rule task_step_unclaimed)
    moreover have "unclaimed s' = unclaimed s1 \<and> length (visited s') = length (visited s1)"
      using None ks step rest by (rule "1.IH")
    ultimately show ?thesis
      by simp
  qed
qed

lemma start_level_unclaimed:
  "start_level thread_count flags currentLevel = Inr s \<Longrightarrow>
   unclaimed s = count_list flags False \<and> visited s = flags"
  by (auto simp: start_level_def Let_def unclaimed_def unmerged_def new_task_def comp_def
      split: if_splits option.splits)

text \<open>
  \<^verbatim>\<open>parallelBFS\<close> returns nothing. The model returns what the function leaves
  behind: \<open>marks\<close>, the vector \<^verbatim>\<open>visited\<close> when the function returns (empty when
  it returns before allocating it), and \<open>frontiers\<close>, the values of
  \<^verbatim>\<open>currentLevel\<close> with which the body of the \<^verbatim>\<open>while\<close> loop was run, in order.
\<close>

record outcome =
  marks :: "bool list"
  frontiers :: "int list list"

function pbfs_loop :: "Graph \<Rightarrow> unsigned_int \<Rightarrow> nat list \<Rightarrow> bool list \<Rightarrow> int list \<Rightarrow> failure + outcome" where
  "pbfs_loop g thread_count sched flags currentLevel =
     (if currentLevel = [] then Inr \<lparr>marks = flags, frontiers = []\<rparr>
      else
        (case start_level thread_count flags currentLevel of
           Inl e \<Rightarrow> Inl e
         | Inr s \<Rightarrow>
             (case level_run g sched s of
                Inl e \<Rightarrow> Inl e
              | Inr (sched', s') \<Rightarrow>
                  (case pbfs_loop g thread_count sched' (visited s') (nextLevel s') of
                     Inl e \<Rightarrow> Inl e
                   | Inr r \<Rightarrow> Inr (r\<lparr>frontiers := currentLevel # frontiers r\<rparr>)))))"
  by pat_completeness auto
termination
proof (relation "measure (\<lambda>(g, thread_count, sched, flags, currentLevel).
    count_list flags False + (if currentLevel = [] then 0 else 1))")
  show "wf (measure (\<lambda>(g, thread_count, sched, flags, currentLevel).
    count_list flags False + (if currentLevel = [] then 0 else 1)))"
    by simp
next
  fix g :: Graph and thread_count :: unsigned_int and sched sched' :: "nat list"
    and flags :: "bool list" and currentLevel :: "int list" and s s' :: level
    and x :: "nat list \<times> level"
  assume nonempty: "currentLevel \<noteq> []"
    and start: "start_level thread_count flags currentLevel = Inr s"
    and run: "level_run g sched s = Inr x" and x: "(sched', s') = x"
  from run x have "level_run g sched s = Inr (sched', s')"
    by simp
  then have "unclaimed s' = unclaimed s"
    by (simp add: level_run_unclaimed)
  with start have "unclaimed s' = count_list flags False"
    by (simp add: start_level_unclaimed)
  then have "count_list (visited s') False + length (nextLevel s') \<le> count_list flags False"
    by (simp add: unclaimed_def)
  with nonempty show "((g, thread_count, sched', visited s', nextLevel s'),
      (g, thread_count, sched, flags, currentLevel))
    \<in> measure (\<lambda>(g, thread_count, sched, flags, currentLevel).
      count_list flags False + (if currentLevel = [] then 0 else 1))"
    by (cases "nextLevel s'") simp_all
qed

declare pbfs_loop.simps [simp del]

definition parallelBFS :: "unsigned_int \<Rightarrow> nat list \<Rightarrow> Graph \<Rightarrow> int \<Rightarrow> failure + outcome" where
  "parallelBFS thread_count sched g startVertex =
     (if startVertex < 0 \<or> startVertex \<ge> vertexCount g then Inr \<lparr>marks = [], frontiers = []\<rparr>
      else
        let flags = replicate (nat (vertexCount g)) False;
            currentLevel = [startVertex];
            flags = flags[nat startVertex := True]
        in pbfs_loop g thread_count sched flags currentLevel)"

section \<open>Notions for stating and proving the properties\<close>

text \<open>
  The definitions of this section are not code of the program: they say what a
  well-formed graph is, which vertices are reachable, and what is still to be done in
  a level of the parallel traversal.
\<close>

text \<open>
  The invariant of the class \<^verbatim>\<open>Graph\<close>: the vertex count is a non-negative
  \<^verbatim>\<open>int\<close>, \<^verbatim>\<open>matrix_\<close> has one row per vertex, and every entry of a row is a
  vertex. The constructor establishes it and \<^verbatim>\<open>addEdge\<close> keeps it (\<open>build_ok\<close>).
\<close>

definition Graph_ok :: "Graph \<Rightarrow> bool" where
  "Graph_ok g \<longleftrightarrow>
     0 \<le> vertexCount g \<and> vertexCount g < 2 ^ 31 \<and>
     length (matrix g) = nat (vertexCount g) \<and>
     (\<forall>vec\<in>set (matrix g). \<forall>v\<in>set vec. 0 \<le> v \<and> v < vertexCount g)"

text \<open>
  The vertices that the rows of the vertices in \<open>U\<close> name, and the vertices
  reachable from \<open>s\<close> along the edges of the adjacency lists.
\<close>

definition neighbours :: "Graph \<Rightarrow> int set \<Rightarrow> int set" where
  "neighbours g U = (\<Union>u\<in>U. set (matrix g ! nat u))"

definition reachable :: "Graph \<Rightarrow> int \<Rightarrow> int set" where
  "reachable g s = {v. (s, v) \<in> {(u, v). v \<in> neighbours g {u}}\<^sup>*}"

text \<open>
  What the loops of a task have not examined yet: the rest of the current row and
  the rows of the vertices left in its chunk; \<open>todo_all\<close> and \<open>chunks_all\<close> collect
  this over the tasks of a level.
\<close>

definition todo :: "Graph \<Rightarrow> task \<Rightarrow> int set" where
  "todo g t = (if stage t = Scanning then set (row t) \<union> neighbours g (set (chunk t)) else {})"

definition todo_all :: "Graph \<Rightarrow> level \<Rightarrow> int set" where
  "todo_all g s = (\<Union>j<length (tasks s). todo g (tasks s ! j))"

definition chunks_all :: "level \<Rightarrow> int set" where
  "chunks_all s = (\<Union>j<length (tasks s). set (chunk (tasks s ! j)))"

text \<open>
  The vertices a level has claimed so far: those merged into \<^verbatim>\<open>nextLevel\<close> and
  those in the local lists of the tasks that have not merged yet.
\<close>

definition claimed :: "task \<Rightarrow> int set" where
  "claimed t = (if stage t = Scanning then set (localNextLevel t) else {})"

definition claims :: "level \<Rightarrow> int set" where
  "claims s = set (nextLevel s) \<union> (\<Union>j<length (tasks s). claimed (tasks s ! j))"

text \<open>A task counts for the wait group until it has called \<^verbatim>\<open>wg.Done()\<close>.\<close>

definition active :: "task \<Rightarrow> nat" where
  "active t = (if stage t = Finished then 0 else 1)"

text \<open>
  The invariant of a level that starts with the marked set \<open>V\<close> and the frontier
  \<open>C\<close>: only neighbours of the frontier get marked; every neighbour of the frontier
  is marked or still to be examined by some task; the claimed vertices are exactly the
  newly marked ones; and the counter of the wait group is the number of tasks that
  have not called \<^verbatim>\<open>Done\<close>.
\<close>

definition level_inv :: "Graph \<Rightarrow> int set \<Rightarrow> int set \<Rightarrow> level \<Rightarrow> bool" where
  "level_inv g V C s \<longleftrightarrow>
     length (visited s) = nat (vertexCount g) \<and>
     V \<subseteq> marked (visited s) \<and>
     marked (visited s) \<subseteq> V \<union> neighbours g C \<and>
     neighbours g C \<subseteq> marked (visited s) \<union> todo_all g s \<and>
     todo_all g s \<subseteq> neighbours g C \<and>
     chunks_all s \<subseteq> C \<and>
     claims s = marked (visited s) - V \<and>
     unat (wg_count (wg s)) = (\<Sum>t\<leftarrow>tasks s. active t)"

section \<open>Lemmas\<close>

subsection \<open>The queue, the pool and the wait group\<close>

lemma Pop_n_drain: "st \<noteq> FORCE_STOPPED \<Longrightarrow> Pop_n (length xs) (st, xs) = Some (map Some xs, (st, []))"
  by (induction xs) (simp_all add: Pop_def)

lemma run_calls_append:
  "run_calls (cs @ ds) q =
     (let (rs, q') = run_calls cs q; (rs', q'') = run_calls ds q' in (rs @ rs', q''))"
  by (induction cs arbitrary: q) (simp_all add: split_def Let_def)

lemma run_pushes:
  "run_calls (map CallPush vs) (RUNNING, xs) = (replicate (length vs) (RetPush True), (RUNNING, xs @ vs))"
  by (induction vs arbitrary: xs) (simp_all add: Push_def Emplace_def)

lemma run_pops:
  "st \<noteq> FORCE_STOPPED \<Longrightarrow>
   run_calls (replicate (length xs) CallPop) (st, xs) = (map (\<lambda>x. RetPop (Some x)) xs, (st, []))"
  by (induction xs) (simp_all add: Pop_def)

lemma popped_from:
  "RetPop (Some v) \<in> set (fst (run_calls cs q)) \<Longrightarrow> v \<in> set (snd q) \<or> CallPush v \<in> set cs"
proof (induction cs arbitrary: q)
  case Nil
  then show ?case by simp
next
  case (Cons c cs)
  obtain r q' where step: "run_call c q = (r, q')"
    by (cases "run_call c q")
  obtain rs q'' where rest: "run_calls cs q' = (rs, q'')"
    by (cases "run_calls cs q'")
  from Cons.prems step rest have "r = RetPop (Some v) \<or> RetPop (Some v) \<in> set (fst (run_calls cs q'))"
    by auto
  then show ?case
  proof
    assume "r = RetPop (Some v)"
    with step have "v \<in> set (snd q)"
      by (cases c) (auto simp: Pop_def split: if_splits option.splits)
    then show ?thesis by simp
  next
    assume "RetPop (Some v) \<in> set (fst (run_calls cs q'))"
    then have "v \<in> set (snd q') \<or> CallPush v \<in> set cs"
      by (rule Cons.IH)
    moreover from step have "set (snd q') \<subseteq> set (snd q) \<union> (case c of CallPush w \<Rightarrow> {w} | _ \<Rightarrow> {})"
      by (cases c) (auto simp: Pop_def Push_def Emplace_def Stop_def split: if_splits option.splits dest: list.set_sel(2))
    ultimately show ?thesis
      by (cases c) auto
  qed
qed

lemma worker_executes:
  "set (fst (snd (worker q executed))) \<subseteq> set executed \<union> set (snd q)"
proof (induction q executed rule: worker.induct)
  case (1 q executed)
  show ?case
  proof (cases "Pop q")
    case None
    then show ?thesis by (subst worker.simps) simp
  next
    case (Some p)
    obtain r q' where p: "p = (r, q')" by (cases p)
    show ?thesis
    proof (cases r)
      case None
      with Some p show ?thesis by (subst worker.simps) simp
    next
      case (Some task)
      with \<open>Pop q = Some p\<close> p have pop: "Pop q = Some (Some task, q')" by simp
      then have "snd q \<noteq> []" "task = hd (snd q)" "snd q' = tl (snd q)"
        by (auto simp: Pop_def split: if_splits)
      then have "set (executed @ [task]) \<union> set (snd q') \<subseteq> set executed \<union> set (snd q)"
        by (auto dest: list.set_sel(2))
      with "1.IH" [OF pop refl refl] pop show ?thesis
        by (subst worker.simps) auto
    qed
  qed
qed

lemma run_call_state:
  "fst (snd (run_call c q)) = (case c of CallStop st \<Rightarrow> st | _ \<Rightarrow> fst q)"
  by (cases c) (auto simp: Push_def Emplace_def Pop_def Stop_def)

lemma run_calls_stay_stopped:
  "\<forall>c\<in>set cs. c \<noteq> CallStop RUNNING \<Longrightarrow> fst q \<noteq> RUNNING \<Longrightarrow> fst (snd (run_calls cs q)) \<noteq> RUNNING"
proof (induction cs arbitrary: q)
  case Nil
  then show ?case by simp
next
  case (Cons c cs)
  from Cons.prems have "fst (snd (run_call c q)) \<noteq> RUNNING"
    using run_call_state [of c q] by (cases c) auto
  with Cons.prems have "fst (snd (run_calls cs (snd (run_call c q)))) \<noteq> RUNNING"
    using Cons.IH [of "snd (run_call c q)"] by simp
  then show ?case
    by (simp add: split_def Let_def)
qed

lemma spawn_threads_length:
  "i \<le> n \<Longrightarrow> length (spawn_threads i n ts) = length ts + (unat n - unat i)"
proof (induction i n ts rule: spawn_threads.induct)
  case (1 i n ts)
  show ?case
  proof (cases "i < n")
    case True
    then have le: "i + 1 \<le> n"
      by (rule inc_le)
    from True have "Suc (unat n - unat (i + 1)) = unat n - unat i"
      by unat_arith
    with "1.IH" [OF True le] True show ?thesis
      by (subst spawn_threads.simps) simp
  next
    case False
    with "1.prems" have "i = n" by simp
    then show ?thesis by (subst spawn_threads.simps) simp
  qed
qed

lemma unat_unsigned_int_less: "unat (w :: unsigned_int) < 2 ^ 32"
  using unsigned_less [of w, where 'a = nat] by simp

lemma unat_widen: "unat (ucast (w :: unsigned_int) :: size_t) = unat w"
proof -
  have "unat w < 2 ^ 64"
    using unat_unsigned_int_less [of w] by simp
  then show ?thesis
    by (simp add: unsigned_ucast_eq take_bit_eq_mod)
qed

lemma wg_count_calls:
  "wg_count (wg_run_calls cs grp) = wg_count grp + of_nat (added cs) - of_nat (dones cs)"
proof (induction cs arbitrary: grp)
  case Nil
  then show ?case by simp
next
  case (Cons c cs)
  then show ?case
    by (cases c) (simp_all add: Add_def Done_def)
qed

lemma wg_waiters_calls: "wg_waiters (wg_run_calls cs grp) = wg_waiters grp"
proof (induction cs arbitrary: grp)
  case Nil
  then show ?case by simp
next
  case (Cons c cs)
  then show ?case
    by (cases c) (simp_all add: Add_def Done_def)
qed

lemma wg_run_calls_append: "wg_run_calls (cs @ ds) grp = wg_run_calls ds (wg_run_calls cs grp)"
  by (induction cs arbitrary: grp) simp_all

lemma wg_count_enter: "wg_count (wg_run_calls cs (Wait_enter grp)) = wg_count (wg_run_calls cs grp)"
  by (simp add: wg_count_calls Wait_enter_def)

lemma no_wrap_count:
  "no_wrap (unat (wg_count grp)) cs \<Longrightarrow>
   unat (wg_count (wg_run_calls cs grp)) + dones cs = unat (wg_count grp) + added cs"
proof (induction cs arbitrary: grp)
  case Nil
  then show ?case by simp
next
  case (Cons c cs)
  show ?case
  proof (cases c)
    case (CallAdd k)
    with Cons.prems have small: "unat (wg_count grp) + unat k < 2 ^ 64"
      and rest: "no_wrap (unat (wg_count grp) + unat k) cs"
      by simp_all
    from small have "unat (wg_count grp + k) = unat (wg_count grp) + unat k"
      by (simp add: unat_add_lem [THEN iffD1])
    with rest Cons.IH [of "Add k grp"] CallAdd show ?thesis
      by (simp add: Add_def)
  next
    case CallDone
    with Cons.prems have pos: "0 < unat (wg_count grp)"
      and rest: "no_wrap (unat (wg_count grp) - 1) cs"
      by simp_all
    from pos have "unat (wg_count grp - 1) = unat (wg_count grp) - 1"
      by unat_arith
    with rest pos Cons.IH [of "Done grp"] CallDone show ?thesis
      by (simp add: Done_def)
  qed
qed

subsection \<open>The chunks of a level\<close>

lemma unat_size_of_nat: "m < 2 ^ 64 \<Longrightarrow> unat (of_nat m :: size_t) = m"
  by (simp add: unat_of_nat take_bit_eq_mod)

lemma chunks_before: "0 < c \<Longrightarrow> j < (L + c - 1) div c \<longleftrightarrow> j * c < L" for c j L :: nat
proof -
  assume c: "0 < c"
  have "j < (L + c - 1) div c \<longleftrightarrow> Suc j \<le> (L + c - 1) div c"
    by auto
  also from c have "\<dots> \<longleftrightarrow> Suc j * c \<le> L + c - 1"
    by (simp only: less_eq_div_iff_mult_less_eq)
  also from c have "\<dots> \<longleftrightarrow> j * c < L"
    by auto
  finally show ?thesis .
qed

lemma chunkSize_value:
  assumes "0 < L" "L < 2 ^ 63" "thread_count \<noteq> 0"
  shows "unat ((of_nat L + ucast thread_count - 1) div ucast thread_count :: size_t) =
    (L + unat (thread_count :: unsigned_int) - 1) div unat thread_count"
proof -
  let ?w = "unat thread_count"
  have w: "0 < ?w" "?w < 2 ^ 32"
    using assms(3) unat_unsigned_int_less [of thread_count] by (simp_all add: unat_gt_0)
  with assms have small: "L + ?w - 1 < 2 ^ 64"
    by simp
  have "(of_nat L + ucast thread_count - 1 :: size_t) = of_nat (L + ?w - 1)"
    using assms(1) by (simp add: of_nat_diff)
  with small have "unat (of_nat L + ucast thread_count - 1 :: size_t) = L + ?w - 1"
    by (simp add: unat_size_of_nat)
  then show ?thesis
    by (simp add: unat_div unat_widen)
qed

lemma wg_count_value:
  assumes "0 < L" "L < 2 ^ 63" "unat chunkSize = c" "0 < c"
  shows "unat (1 + (of_nat L - 1) div chunkSize :: size_t) = 1 + (L - 1) div c"
proof -
  from assms(1) have "(of_nat L - 1 :: size_t) = of_nat (L - 1)"
    by (simp add: of_nat_diff)
  with assms(2) have "unat (of_nat L - 1 :: size_t) = L - 1"
    by (simp add: unat_size_of_nat)
  with assms(3) have quot: "unat ((of_nat L - 1) div chunkSize :: size_t) = (L - 1) div c"
    by (simp add: unat_div)
  have "(L - 1) div c \<le> L"
    by (meson diff_le_self div_le_dividend le_trans)
  with assms(2) have "1 + (L - 1) div c < 2 ^ 64"
    by simp
  with quot show ?thesis
    by (simp add: unat_add_lem [THEN iffD1])
qed

lemma push_chunks_value:
  assumes c: "unat chunkSize = c" "0 < c" "c \<le> L" and L: "L < 2 ^ 63"
  shows "j \<le> (L + c - 1) div c \<Longrightarrow>
    push_chunks (of_nat (j * c)) chunkSize (of_nat L) pushed =
      Some (pushed @ map (\<lambda>i. (of_nat (i * c), of_nat (min (Suc i * c) L))) [j..<(L + c - 1) div c])"
proof (induction "(L + c - 1) div c - j" arbitrary: j pushed)
  case 0
  then have j: "j = (L + c - 1) div c"
    by simp
  with c have after: "\<not> j * c < L"
    using chunks_before [of c j L] by simp
  have "j * c \<le> L + c - 1"
    unfolding j by simp
  with c L have "j * c < 2 ^ 64"
    by simp
  then have uj: "unat (of_nat (j * c) :: size_t) = j * c"
    by (rule unat_size_of_nat)
  from L have uL: "unat (of_nat L :: size_t) = L"
    by (intro unat_size_of_nat) simp
  have "\<not> (of_nat (j * c) :: size_t) < of_nat L"
    unfolding word_less_nat_alt uj uL by (rule after)
  then show ?case
    using j by (subst push_chunks.simps) (simp del: of_nat_mult)
next
  case (Suc d)
  then have less: "j < (L + c - 1) div c"
    by simp
  with c have before: "j * c < L"
    using chunks_before [of c j L] by simp
  with c L have small: "j * c < 2 ^ 64" "Suc j * c < 2 ^ 64"
    by simp_all
  have uL: "unat (of_nat L :: size_t) = L"
    using L by (intro unat_size_of_nat) simp
  have uj: "unat (of_nat (j * c) :: size_t) = j * c"
    using small(1) by (rule unat_size_of_nat)
  have uj': "unat (of_nat (Suc j * c) :: size_t) = Suc j * c"
    using small(2) by (rule unat_size_of_nat)
  have guard: "(of_nat (j * c) :: size_t) < of_nat L"
    unfolding word_less_nat_alt uL uj by (rule before)
  have cs: "chunkSize = of_nat c"
    using c(1) of_nat_unat [of chunkSize, where 'a = size_t] by simp
  have next_start: "(of_nat (j * c) + chunkSize :: size_t) = of_nat (Suc j * c)"
    by (simp add: cs add.commute)
  have chunkEnd': "min (of_nat (Suc j * c)) (of_nat L :: size_t) = of_nat (min (Suc j * c) L)"
    unfolding min_def word_le_nat_alt uL uj' by simp
  then have chunkEnd: "min (of_nat (j * c) + chunkSize) (of_nat L :: size_t) = of_nat (min (Suc j * c) L)"
    by (simp only: next_start)
  from Suc.hyps(2) less have "d = (L + c - 1) div c - Suc j" "Suc j \<le> (L + c - 1) div c"
    by simp_all
  then have "push_chunks (of_nat (Suc j * c)) chunkSize (of_nat L)
      (pushed @ [(of_nat (j * c), of_nat (min (Suc j * c) L))]) =
    Some ((pushed @ [(of_nat (j * c), of_nat (min (Suc j * c) L))]) @
      map (\<lambda>i. (of_nat (i * c), of_nat (min (Suc i * c) L))) [Suc j..<(L + c - 1) div c])"
    by (rule Suc.hyps(1))
  moreover from less have "[j..<(L + c - 1) div c] = j # [Suc j..<(L + c - 1) div c]"
    by (rule upt_conv_Cons)
  ultimately show ?case
    using guard by (subst push_chunks.simps) (simp only: next_start chunkEnd' if_True list.map append.simps append_assoc)
qed

lemma ceil_div_pos: "0 < L \<Longrightarrow> 0 < w \<Longrightarrow> 0 < (L + w - 1) div w" for L w :: nat
  by (simp add: div_greater_zero_iff)

lemma ceil_div_le: "0 < L \<Longrightarrow> 0 < w \<Longrightarrow> (L + w - 1) div w \<le> L" for L w :: nat
proof -
  assume "0 < L" "0 < w"
  then have "L + w - 1 < Suc L * w"
    by (cases L; cases w) simp_all
  then have "(L + w - 1) div w < Suc L"
    by (rule less_mult_imp_div_less)
  then show ?thesis
    by simp
qed

lemma ceil_div_bounds:
  "0 < L \<Longrightarrow> 0 < w \<Longrightarrow> w * ((L + w - 1) div w - 1) < L \<and> L \<le> w * ((L + w - 1) div w)"
  for L w :: nat
proof -
  assume L: "0 < L" and w: "0 < w"
  let ?c = "(L + w - 1) div w"
  from L w have pos: "0 < ?c"
    by (rule ceil_div_pos)
  have "?c - 1 < ?c"
    using pos by simp
  with w have "(?c - 1) * w < L"
    using chunks_before [of w "?c - 1" L] by simp
  moreover from w have "\<not> ?c * w < L"
    using chunks_before [of w ?c L] by simp
  ultimately show ?thesis
    by (simp add: mult.commute)
qed

lemma ceil_div_Suc: "0 < L \<Longrightarrow> 0 < c \<Longrightarrow> (L + c - 1) div c = 1 + (L - 1) div c" for L c :: nat
proof -
  assume "0 < L" "0 < c"
  then have "L + c - 1 = (L - 1) + c"
    by simp
  moreover from \<open>0 < c\<close> have "((L - 1) + c) div c = 1 + (L - 1) div c"
    using div_add_self2 [of c "L - 1"] by simp
  ultimately show ?thesis
    by (simp only:)
qed

lemma concat_chunks:
  "concat (map (\<lambda>i. take c (drop (i * c) xs)) [0..<k]) = take (k * c) xs"
proof (induction k)
  case 0
  then show ?case by simp
next
  case (Suc k)
  have "Suc k * c = k * c + c"
    by simp
  then have "take (Suc k * c) xs = take (k * c) xs @ take c (drop (k * c) xs)"
    by (simp only: take_add)
  with Suc show ?case
    by simp
qed

lemma start_level_value:
  assumes nonempty: "currentLevel \<noteq> []" and size: "length currentLevel < 2 ^ 63"
    and workers: "thread_count \<noteq> 0"
  defines "L \<equiv> length currentLevel"
  defines "c \<equiv> (L + unat thread_count - 1) div unat thread_count"
  shows "start_level thread_count flags currentLevel =
      Inr \<lparr>visited = flags, nextLevel = [], wg = WaitGroup (of_nat ((L + c - 1) div c)),
           tasks = map (\<lambda>i. \<lparr>chunk = take c (drop (i * c) currentLevel), row = [],
                               localNextLevel = [], stage = Scanning\<rparr>) [0..<(L + c - 1) div c]\<rparr>"
proof -
  let ?w = "unat thread_count"
  let ?n = "of_nat L :: size_t"
  let ?chunkSize = "(?n + ucast thread_count - 1) div ucast thread_count :: size_t"
  let ?k = "(L + c - 1) div c"
  from nonempty have L: "0 < L" "L < 2 ^ 63"
    using size by (simp_all add: L_def)
  from workers have w: "0 < ?w"
    by (simp add: unat_gt_0)
  then have "unat (ucast thread_count :: size_t) \<noteq> unat (0 :: size_t)"
    by (simp only: unat_widen unat_0)
  then have wide: "((ucast thread_count :: size_t) = 0) = False"
    by auto
  from L workers have cs: "unat ?chunkSize = c"
    unfolding c_def by (rule chunkSize_value)
  from L w have c: "0 < c" "c \<le> L"
    unfolding c_def by (simp_all only: ceil_div_pos ceil_div_le)
  from cs c have "unat ?chunkSize \<noteq> unat (0 :: size_t)"
    by (simp only: unat_0)
  then have nonzero: "(?chunkSize = 0) = False"
    by auto
  have "push_chunks (of_nat (0 * c)) ?chunkSize ?n [] =
      Some ([] @ map (\<lambda>i. (of_nat (i * c), of_nat (min (Suc i * c) L))) [0..<?k])"
    using cs c L(2) by (rule push_chunks_value) simp
  then have pushed: "push_chunks 0 ?chunkSize ?n [] =
      Some (map (\<lambda>i. (of_nat (i * c), of_nat (min (Suc i * c) L))) [0..<?k])"
    by simp
  have task: "new_task currentLevel (of_nat (i * c), of_nat (min (Suc i * c) L)) =
      \<lparr>chunk = take c (drop (i * c) currentLevel), row = [], localNextLevel = [], stage = Scanning\<rparr>"
    if "i < ?k" for i
  proof -
    from that c have before: "i * c < L"
      using chunks_before [of c i L] by simp
    with L have "i * c < 2 ^ 64" "min (Suc i * c) L < 2 ^ 64"
      by simp_all
    then have "unat (of_nat (i * c) :: size_t) = i * c"
      "unat (of_nat (min (Suc i * c) L) :: size_t) = min (Suc i * c) L"
      by (simp_all only: unat_size_of_nat)
    moreover have "take (min (Suc i * c) L - i * c) (drop (i * c) currentLevel) =
        take c (drop (i * c) currentLevel)"
      by (simp add: min_def L_def)
    ultimately show ?thesis
      by (simp only: new_task_def fst_conv snd_conv)
  qed
  have tasks: "map (new_task currentLevel) (map (\<lambda>i. (of_nat (i * c), of_nat (min (Suc i * c) L))) [0..<?k]) =
      map (\<lambda>i. \<lparr>chunk = take c (drop (i * c) currentLevel), row = [],
                   localNextLevel = [], stage = Scanning\<rparr>) [0..<?k]"
  proof (unfold map_map, rule map_cong [OF refl])
    fix i
    assume "i \<in> set [0..<?k]"
    then have "i < ?k"
      by simp
    then show "(new_task currentLevel \<circ> (\<lambda>i. (of_nat (i * c), of_nat (min (Suc i * c) L)))) i =
        \<lparr>chunk = take c (drop (i * c) currentLevel), row = [], localNextLevel = [], stage = Scanning\<rparr>"
      unfolding o_apply by (rule task)
  qed
  from L cs c have "unat (1 + (?n - 1) div ?chunkSize) = 1 + (L - 1) div c"
    by (intro wg_count_value)
  with L c have count: "unat (1 + (?n - 1) div ?chunkSize) = ?k"
    using ceil_div_Suc [of L c] by simp
  have count': "1 + (?n - 1) div ?chunkSize = of_nat ?k"
    using of_nat_unat [of "1 + (?n - 1) div ?chunkSize", where 'a = size_t]
    by (simp only: count unsigned_eq_0_iff ucast_id)
  show ?thesis
    by (simp only: start_level_def Let_def L_def [symmetric] wide nonzero if_False pushed
        option.case tasks count')
qed

text \<open>
  A level never has more tasks than the pool has threads, so all tasks of a level can
  be under way at once, each on a thread of its own.
\<close>

lemma level_tasks_le_workers:
  assumes "currentLevel \<noteq> []" and "length currentLevel < 2 ^ 63" and "thread_count \<noteq> 0"
    and start: "start_level thread_count flags currentLevel = Inr s"
  shows "length (tasks s) \<le> unat thread_count"
proof -
  define L where "L = length currentLevel"
  define w where "w = unat thread_count"
  define c where "c = (L + w - 1) div w"
  from assms(1-3) start have "length (tasks s) = (L + c - 1) div c"
    using start_level_value [of currentLevel thread_count flags]
    by (auto simp: L_def w_def c_def)
  moreover have "(L + c - 1) div c < Suc w"
  proof (rule less_mult_imp_div_less)
    from assms(1,3) have "0 < L" "0 < w"
      by (simp_all add: L_def w_def unat_gt_0)
    then have "L \<le> w * c" "0 < c"
      unfolding c_def using ceil_div_bounds [of L w] ceil_div_pos [of L w] by simp_all
    then show "L + c - 1 < Suc w * c"
      by simp
  qed
  ultimately show ?thesis
    by (simp add: w_def)
qed

subsection \<open>Marked vertices\<close>

lemma set_marked_from:
  "set (marked_from i flags) = {int (i + j) | j. j < length flags \<and> flags ! j}"
proof (induction flags arbitrary: i)
  case Nil
  then show ?case by simp
next
  case (Cons b bs)
  have "{int (i + j) | j. j < length (b # bs) \<and> (b # bs) ! j} =
      (if b then {int i} else {}) \<union> {int (Suc i + j) | j. j < length bs \<and> bs ! j}"
    (is "?L = ?R")
  proof (intro set_eqI iffI)
    fix x
    assume "x \<in> ?L"
    then obtain j where j: "x = int (i + j)" "j < length (b # bs)" "(b # bs) ! j"
      by blast
    then show "x \<in> ?R"
      by (cases j) auto
  next
    fix x
    assume "x \<in> ?R"
    then consider "b" "x = int i" | j where "x = int (Suc i + j)" "j < length bs" "bs ! j"
      by (auto split: if_splits)
    then show "x \<in> ?L"
    proof cases
      case 1
      then have "x = int (i + 0) \<and> 0 < length (b # bs) \<and> (b # bs) ! 0"
        by simp
      then show ?thesis
        by blast
    next
      case 2
      then have "x = int (i + Suc j) \<and> Suc j < length (b # bs) \<and> (b # bs) ! Suc j"
        by simp
      then show ?thesis
        by blast
    qed
  qed
  with Cons show ?case
    by (simp add: add.assoc)
qed

lemma marked_iff: "v \<in> marked flags \<longleftrightarrow> 0 \<le> v \<and> nat v < length flags \<and> flags ! nat v"
proof -
  have "v \<in> marked flags \<longleftrightarrow> (\<exists>j. v = int j \<and> j < length flags \<and> flags ! j)"
    by (simp add: marked_def set_marked_from)
  also have "\<dots> \<longleftrightarrow> 0 \<le> v \<and> nat v < length flags \<and> flags ! nat v"
    by (metis nat_int int_nat_eq of_nat_0_le_iff)
  finally show ?thesis .
qed

lemma marked_update:
  "0 \<le> v \<Longrightarrow> nat v < length flags \<Longrightarrow> marked (flags[nat v := True]) = insert v (marked flags)"
  by (auto simp: marked_iff nth_list_update eq_nat_nat_iff split: if_splits)

lemma marked_replicate: "marked (replicate n False) = {}"
  by (auto simp: marked_iff)

lemma marked_bounded: "marked flags \<subseteq> {0..<int (length flags)}"
  by (auto simp: marked_iff)

lemma finite_marked: "finite (marked flags)"
  by (simp add: marked_def)

lemma card_marked: "card (marked flags) + count_list flags False = length flags"
proof -
  have "distinct (marked_from i flags) \<and> length (marked_from i flags) + count_list flags False = length flags" for i
  proof (induction flags arbitrary: i)
    case Nil
    then show ?case by simp
  next
    case (Cons b bs)
    have "int i \<notin> set (marked_from (Suc i) bs)"
      by (auto simp: set_marked_from)
    with Cons [of "Suc i"] show ?case
      by simp
  qed
  then show ?thesis
    by (metis marked_def distinct_card)
qed

subsection \<open>Well-formed graphs and reachability\<close>

lemma Graph_ctor_ok: "Graph n = Inr g \<Longrightarrow> Graph_ok g"
proof -
  assume "Graph n = Inr g"
  then have g: "g = \<lparr>vertexCount = sint n, matrix = replicate (nat (sint n)) []\<rparr>"
    and pos: "\<not> n <s 0"
    by (auto simp: Graph_def split: if_splits)
  have "sint n < 2 ^ 31"
    using sint_lt [of n] by simp
  with pos show ?thesis
    by (simp add: g Graph_ok_def word_sless_alt)
qed

lemma addEdge_ok: "Graph_ok g \<Longrightarrow> \<exists>g'. addEdge src dest g = Inr g' \<and> Graph_ok g'"
proof -
  assume ok: "Graph_ok g"
  show ?thesis
  proof (cases "src < 0 \<or> dest < 0 \<or> src \<ge> vertexCount g \<or> dest \<ge> vertexCount g")
    case True
    with ok show ?thesis
      by (simp add: addEdge_def)
  next
    case False
    with ok have index: "nat src < length (matrix g)"
      by (simp add: Graph_ok_def)
    then have inside: "\<not> int (length (matrix g)) \<le> src"
      by simp
    let ?vec = "matrix g ! nat src"
    let ?g = "g\<lparr>matrix := (matrix g)[nat src := ?vec @ [dest]]\<rparr>"
    from index have "?vec \<in> set (matrix g)"
      by simp
    with ok False have "\<forall>v\<in>set (?vec @ [dest]). 0 \<le> v \<and> v < vertexCount g"
      by (auto simp: Graph_ok_def)
    with ok have "Graph_ok ?g"
      unfolding Graph_ok_def by (auto dest!: set_update_subset_insert [THEN subsetD])
    with ok False inside show ?thesis
      by (simp add: addEdge_def Let_def)
  qed
qed

lemma addEdges_ok: "Graph_ok g \<Longrightarrow> \<exists>g'. addEdges es g = Inr g' \<and> Graph_ok g'"
proof (induction es arbitrary: g)
  case Nil
  then show ?case by simp
next
  case (Cons e es)
  obtain src dest where e: "e = (src, dest)"
    by (cases e)
  from Cons.prems obtain g1 where "addEdge src dest g = Inr g1" "Graph_ok g1"
    using addEdge_ok by blast
  with Cons.IH [of g1] e show ?case
    by simp
qed

lemma build_ok: "build n es = Inr g \<Longrightarrow> Graph_ok g"
proof -
  assume built: "build n es = Inr g"
  then obtain g0 where g0: "Graph n = Inr g0" and edges: "addEdges es g0 = Inr g"
    by (auto simp: build_def split: sum.splits)
  from g0 have "Graph_ok g0"
    by (rule Graph_ctor_ok)
  then obtain g' where "addEdges es g0 = Inr g'" "Graph_ok g'"
    using addEdges_ok by blast
  with edges show ?thesis
    by simp
qed

lemma neighbours_bounded:
  "Graph_ok g \<Longrightarrow> U \<subseteq> {0..<vertexCount g} \<Longrightarrow> neighbours g U \<subseteq> {0..<vertexCount g}"
proof
  fix v
  assume ok: "Graph_ok g" and U: "U \<subseteq> {0..<vertexCount g}" and "v \<in> neighbours g U"
  then obtain u where u: "u \<in> U" "v \<in> set (matrix g ! nat u)"
    by (auto simp: neighbours_def)
  with U ok have "matrix g ! nat u \<in> set (matrix g)"
    by (auto simp: Graph_ok_def)
  with ok u show "v \<in> {0..<vertexCount g}"
    by (auto simp: Graph_ok_def)
qed

lemma reachable_start: "s \<in> reachable g s"
  by (simp add: reachable_def)

lemma reachable_step: "u \<in> reachable g s \<Longrightarrow> v \<in> neighbours g {u} \<Longrightarrow> v \<in> reachable g s"
  unfolding reachable_def by (auto intro: rtrancl_into_rtrancl)

lemma reachable_closed:
  assumes "s \<in> M" and "\<forall>u\<in>M. neighbours g {u} \<subseteq> M"
  shows "reachable g s \<subseteq> M"
proof
  fix v
  assume "v \<in> reachable g s"
  then have "(s, v) \<in> {(u, v). v \<in> neighbours g {u}}\<^sup>*"
    by (simp add: reachable_def)
  then show "v \<in> M"
  proof (induction rule: rtrancl_induct)
    case base
    from assms(1) show ?case .
  next
    case (step u v)
    with assms(2) show ?case
      by auto
  qed
qed

subsection \<open>The sequential traversal visits the reachable vertices\<close>

lemma bfs_scan_marks:
  assumes "\<forall>n\<in>set ns. 0 \<le> n \<and> n < int (length flags)"
  shows "\<exists>flags' q'. bfs_scan ns flags q = Inr (flags', q') \<and>
    length flags' = length flags \<and>
    marked flags' = marked flags \<union> set ns \<and>
    set q' = set q \<union> (set ns - marked flags)"
  using assms
proof (induction ns arbitrary: flags q)
  case Nil
  then show ?case by simp
next
  case (Cons n ns)
  then have n: "0 \<le> n" "nat n < length flags"
    by auto
  show ?case
  proof (cases "flags ! nat n")
    case True
    with n have "n \<in> marked flags"
      by (simp add: marked_iff)
    moreover from Cons.prems
    obtain flags' q' where "bfs_scan ns flags q = Inr (flags', q')"
      "length flags' = length flags" "marked flags' = marked flags \<union> set ns"
      "set q' = set q \<union> (set ns - marked flags)"
      using Cons.IH [of flags q] by auto
    ultimately show ?thesis
      using n True by auto
  next
    case False
    let ?flags = "flags[nat n := True]"
    from n False have unmarked: "n \<notin> marked flags"
      by (simp add: marked_iff)
    from n have marks: "marked ?flags = insert n (marked flags)"
      by (rule marked_update)
    from Cons.prems
    obtain flags' q' where "bfs_scan ns ?flags (q @ [n]) = Inr (flags', q')"
      "length flags' = length ?flags" "marked flags' = marked ?flags \<union> set ns"
      "set q' = set (q @ [n]) \<union> (set ns - marked ?flags)"
      using Cons.IH [of ?flags "q @ [n]"] by auto
    with marks unmarked show ?thesis
      using n False by auto
  qed
qed

lemma bfs_loop_reachable:
  "Graph_ok g \<Longrightarrow> length flags = nat (vertexCount g) \<Longrightarrow> set q \<subseteq> marked flags \<Longrightarrow>
    s \<in> marked flags \<Longrightarrow> marked flags \<subseteq> reachable g s \<Longrightarrow>
    \<forall>u\<in>marked flags - set q. neighbours g {u} \<subseteq> marked flags \<Longrightarrow>
    \<exists>vs. bfs_loop g flags q = Inr vs \<and> marked vs = reachable g s"
proof (induction g flags q rule: bfs_loop.induct)
  case (1 g flags)
  then have "reachable g s \<subseteq> marked flags"
    by (intro reachable_closed) simp_all
  with "1.prems" show ?case
    by (auto simp: bfs_loop.simps)
next
  case (2 g flags u q)
  from "2.prems" have ok: "Graph_ok g"
    by simp
  from "2.prems" have u: "u \<in> marked flags"
    by simp
  with "2.prems" ok have range: "0 \<le> u" "u < vertexCount g" "nat u < length (matrix g)"
    by (auto simp: marked_iff Graph_ok_def)
  then have inside: "\<not> (u < 0 \<or> int (length (matrix g)) \<le> u)"
    by auto
  let ?row = "matrix g ! nat u"
  have row: "set ?row = neighbours g {u}"
    by (simp add: neighbours_def)
  from ok range have "neighbours g {u} \<subseteq> {0..<vertexCount g}"
    by (intro neighbours_bounded) auto
  with "2.prems"(2) row have "\<forall>n\<in>set ?row. 0 \<le> n \<and> n < int (length flags)"
    by auto
  then obtain flags' q' where scan: "bfs_scan ?row flags q = Inr (flags', q')"
    and len: "length flags' = length flags"
    and marks: "marked flags' = marked flags \<union> set ?row"
    and queue: "set q' = set q \<union> (set ?row - marked flags)"
    using bfs_scan_marks [of ?row flags q] by blast
  have "\<exists>vs. bfs_loop g flags' q' = Inr vs \<and> marked vs = reachable g s"
  proof (rule "2.IH" [OF inside scan refl ok])
    show "length flags' = nat (vertexCount g)"
      using len "2.prems" by simp
    show "set q' \<subseteq> marked flags'"
      using queue marks "2.prems" by auto
    show "s \<in> marked flags'"
      using marks "2.prems" by simp
    show "marked flags' \<subseteq> reachable g s"
    proof -
      from u "2.prems" have "u \<in> reachable g s"
        by auto
      then have "neighbours g {u} \<subseteq> reachable g s"
        by (auto intro: reachable_step)
      with marks row "2.prems" show ?thesis
        by auto
    qed
    show "\<forall>w\<in>marked flags' - set q'. neighbours g {w} \<subseteq> marked flags'"
    proof
      fix w
      assume w: "w \<in> marked flags' - set q'"
      with marks queue have old: "w \<in> marked flags" "w \<notin> set q"
        by auto
      show "neighbours g {w} \<subseteq> marked flags'"
      proof (cases "w = u")
        case True
        with marks row show ?thesis
          by simp
      next
        case False
        with old "2.prems" have "neighbours g {w} \<subseteq> marked flags"
          by auto
        with marks show ?thesis
          by auto
      qed
    qed
  qed
  with inside scan show ?case
    by (simp add: bfs_loop.simps)
qed

lemma bfs_reachable:
  assumes "Graph_ok g" and "0 \<le> startVertex" and "startVertex < vertexCount g"
  shows "\<exists>vs. bfs g startVertex = Inr vs \<and> marked vs = reachable g startVertex"
proof -
  let ?flags = "(replicate (nat (vertexCount g)) False)[nat startVertex := True]"
  from assms have marks: "marked ?flags = {startVertex}"
    by (simp add: marked_update marked_replicate)
  have "\<exists>vs. bfs_loop g ?flags [startVertex] = Inr vs \<and> marked vs = reachable g startVertex"
  proof (rule bfs_loop_reachable)
    show "Graph_ok g"
      by (rule assms(1))
    show "length ?flags = nat (vertexCount g)"
      by simp
    show "set [startVertex] \<subseteq> marked ?flags" "startVertex \<in> marked ?flags"
      "marked ?flags \<subseteq> reachable g startVertex"
      "\<forall>u\<in>marked ?flags - set [startVertex]. neighbours g {u} \<subseteq> marked ?flags"
      by (simp_all add: marks reachable_start)
  qed
  with assms show ?thesis
    by (simp add: bfs_def Let_def)
qed

subsection \<open>One step of a task\<close>

lemma UN_tasks_nth:
  "k < length ts \<Longrightarrow> (\<Union>j<length ts. f (ts ! j)) = f (ts ! k) \<union> (\<Union>j\<in>{..<length ts} - {k}. f (ts ! j))"
  by auto

lemma UN_tasks_update:
  "k < length ts \<Longrightarrow>
   (\<Union>j<length (ts[k := t']). f (ts[k := t'] ! j)) = f t' \<union> (\<Union>j\<in>{..<length ts} - {k}. f (ts ! j))"
  by (auto simp: nth_list_update split: if_splits)

lemma neighbours_insert: "neighbours g (insert u U) = set (matrix g ! nat u) \<union> neighbours g U"
  by (simp add: neighbours_def)

lemma task_step_cases:
  assumes "task_step g k s = Inr s'" and "stage (tasks s ! k) \<noteq> Finished"
  obtains
    (won) v vs where "stage (tasks s ! k) = Scanning" "row (tasks s ! k) = v # vs"
      "0 \<le> v" "nat v < length (visited s)" "\<not> visited s ! nat v"
      "s' = s\<lparr>visited := (visited s)[nat v := True],
              tasks := (tasks s)[k := (tasks s ! k)\<lparr>row := vs,
                localNextLevel := localNextLevel (tasks s ! k) @ [v]\<rparr>]\<rparr>"
  | (lost) v vs where "stage (tasks s ! k) = Scanning" "row (tasks s ! k) = v # vs"
      "0 \<le> v" "nat v < length (visited s)" "visited s ! nat v"
      "s' = s\<lparr>tasks := (tasks s)[k := (tasks s ! k)\<lparr>row := vs\<rparr>]\<rparr>"
  | (fetch) u us where "stage (tasks s ! k) = Scanning" "row (tasks s ! k) = []"
      "chunk (tasks s ! k) = u # us" "0 \<le> u" "nat u < length (matrix g)"
      "s' = s\<lparr>tasks := (tasks s)[k := (tasks s ! k)\<lparr>chunk := us, row := matrix g ! nat u\<rparr>]\<rparr>"
  | (merge) "stage (tasks s ! k) = Scanning" "row (tasks s ! k) = []" "chunk (tasks s ! k) = []"
      "s' = s\<lparr>nextLevel := nextLevel s @ localNextLevel (tasks s ! k),
              tasks := (tasks s)[k := (tasks s ! k)\<lparr>stage := Signalling\<rparr>]\<rparr>"
  | (signal) "stage (tasks s ! k) = Signalling"
      "s' = s\<lparr>wg := Done (wg s), tasks := (tasks s)[k := (tasks s ! k)\<lparr>stage := Finished\<rparr>]\<rparr>"
proof (cases "stage (tasks s ! k)")
  case Finished
  with assms(2) show ?thesis
    by simp
next
  case Signalling
  with assms(1) have "s' = s\<lparr>wg := Done (wg s), tasks := (tasks s)[k := (tasks s ! k)\<lparr>stage := Finished\<rparr>]\<rparr>"
    by (simp add: task_step_def Let_def)
  with Signalling show ?thesis
    by (rule signal)
next
  case Scanning
  show ?thesis
  proof (cases "row (tasks s ! k)")
    case (Cons v vs)
    with Scanning assms(1) have range: "\<not> (v < 0 \<or> int (length (visited s)) \<le> v)"
      by (auto simp: task_step_def Let_def compare_exchange_strong_def split: if_splits)
    then have index: "0 \<le> v" "nat v < length (visited s)"
      by auto
    show ?thesis
    proof (cases "visited s ! nat v")
      case True
      with Scanning Cons range assms(1)
      have "s' = s\<lparr>tasks := (tasks s)[k := (tasks s ! k)\<lparr>row := vs\<rparr>]\<rparr>"
        by (simp add: task_step_def Let_def compare_exchange_strong_def)
      with Scanning Cons index True show ?thesis
        by (rule lost)
    next
      case False
      with Scanning Cons range assms(1)
      have "s' = s\<lparr>visited := (visited s)[nat v := True],
              tasks := (tasks s)[k := (tasks s ! k)\<lparr>row := vs,
                localNextLevel := localNextLevel (tasks s ! k) @ [v]\<rparr>]\<rparr>"
        by (simp add: task_step_def Let_def compare_exchange_strong_def)
      with Scanning Cons index False show ?thesis
        by (rule won)
    qed
  next
    case Nil
    show ?thesis
    proof (cases "chunk (tasks s ! k)")
      case (Cons u us)
      with Scanning Nil assms(1) have range: "\<not> (u < 0 \<or> int (length (matrix g)) \<le> u)"
        by (auto simp: task_step_def Let_def split: if_splits)
      then have index: "0 \<le> u" "nat u < length (matrix g)"
        by auto
      from Scanning Nil Cons range assms(1)
      have "s' = s\<lparr>tasks := (tasks s)[k := (tasks s ! k)\<lparr>chunk := us, row := matrix g ! nat u\<rparr>]\<rparr>"
        by (simp add: task_step_def Let_def)
      with Scanning Nil Cons index show ?thesis
        by (rule fetch)
    next
      case empty: Nil
      with Scanning Nil assms(1)
      have "s' = s\<lparr>nextLevel := nextLevel s @ localNextLevel (tasks s ! k),
              tasks := (tasks s)[k := (tasks s ! k)\<lparr>stage := Signalling\<rparr>]\<rparr>"
        by (cases "localNextLevel (tasks s ! k) = []") (simp_all add: task_step_def Let_def)
      with Scanning Nil empty show ?thesis
        by (rule merge)
    qed
  qed
qed

lemma aggregates_nth:
  assumes "k < length (tasks s)"
  shows "todo_all g s = todo g (tasks s ! k) \<union> (\<Union>j\<in>{..<length (tasks s)} - {k}. todo g (tasks s ! j))"
    and "chunks_all s = set (chunk (tasks s ! k)) \<union> (\<Union>j\<in>{..<length (tasks s)} - {k}. set (chunk (tasks s ! j)))"
    and "claims s = set (nextLevel s) \<union> (claimed (tasks s ! k) \<union> (\<Union>j\<in>{..<length (tasks s)} - {k}. claimed (tasks s ! j)))"
  unfolding todo_all_def chunks_all_def claims_def
  using assms by auto

lemma aggregates_update:
  assumes "k < length (tasks s)" and "tasks s' = (tasks s)[k := t']"
  shows "todo_all g s' = todo g t' \<union> (\<Union>j\<in>{..<length (tasks s)} - {k}. todo g (tasks s ! j))"
    and "chunks_all s' = set (chunk t') \<union> (\<Union>j\<in>{..<length (tasks s)} - {k}. set (chunk (tasks s ! j)))"
    and "claims s' = set (nextLevel s') \<union> (claimed t' \<union> (\<Union>j\<in>{..<length (tasks s)} - {k}. claimed (tasks s ! j)))"
  unfolding todo_all_def chunks_all_def claims_def assms(2)
  using assms(1) by (auto simp: nth_list_update split: if_splits)

lemma task_step_effect:
  assumes step: "task_step g k s = Inr s'" and k: "k < length (tasks s)"
    and running: "stage (tasks s ! k) \<noteq> Finished"
  shows "length (visited s') = length (visited s)"
    and "marked (visited s) \<subseteq> marked (visited s')"
    and "marked (visited s') \<subseteq> marked (visited s) \<union> todo_all g s"
    and "todo_all g s \<subseteq> todo_all g s' \<union> marked (visited s')"
    and "todo_all g s' \<subseteq> todo_all g s"
    and "chunks_all s' \<subseteq> chunks_all s"
    and "claims s' = claims s \<union> (marked (visited s') - marked (visited s))"
proof -
  let ?t = "tasks s ! k"
  note old = aggregates_nth [OF k]
  have "length (visited s') = length (visited s) \<and>
    marked (visited s) \<subseteq> marked (visited s') \<and>
    marked (visited s') \<subseteq> marked (visited s) \<union> todo_all g s \<and>
    todo_all g s \<subseteq> todo_all g s' \<union> marked (visited s') \<and>
    todo_all g s' \<subseteq> todo_all g s \<and>
    chunks_all s' \<subseteq> chunks_all s \<and>
    claims s' = claims s \<union> (marked (visited s') - marked (visited s))"
    using step running
  proof (cases rule: task_step_cases)
    case (won v vs)
    let ?t' = "?t\<lparr>row := vs, localNextLevel := localNextLevel ?t @ [v]\<rparr>"
    from won have upd: "tasks s' = (tasks s)[k := ?t']"
      by simp
    note new = aggregates_update [OF k upd]
    from won have marks: "marked (visited s') = insert v (marked (visited s))"
      by (simp add: marked_update)
    from won have fresh: "v \<notin> marked (visited s)"
      by (simp add: marked_iff)
    from won have "todo g ?t = insert v (todo g ?t')" "chunk ?t' = chunk ?t"
      "claimed ?t' = insert v (claimed ?t)" "nextLevel s' = nextLevel s"
      "length (visited s') = length (visited s)"
      by (simp_all add: todo_def claimed_def)
    with marks fresh show ?thesis
      unfolding old new by auto
  next
    case (lost v vs)
    let ?t' = "?t\<lparr>row := vs\<rparr>"
    from lost have upd: "tasks s' = (tasks s)[k := ?t']"
      by simp
    note new = aggregates_update [OF k upd]
    from lost have marks: "visited s' = visited s" "v \<in> marked (visited s)"
      by (simp_all add: marked_iff)
    from lost have "todo g ?t = insert v (todo g ?t')" "chunk ?t' = chunk ?t"
      "claimed ?t' = claimed ?t" "nextLevel s' = nextLevel s"
      by (simp_all add: todo_def claimed_def)
    with marks show ?thesis
      unfolding old new by auto
  next
    case (fetch u us)
    let ?t' = "?t\<lparr>chunk := us, row := matrix g ! nat u\<rparr>"
    from fetch have upd: "tasks s' = (tasks s)[k := ?t']"
      by simp
    note new = aggregates_update [OF k upd]
    from fetch have marks: "visited s' = visited s"
      by simp
    from fetch have "todo g ?t' = todo g ?t" "set (chunk ?t') \<subseteq> set (chunk ?t)"
      "claimed ?t' = claimed ?t" "nextLevel s' = nextLevel s"
      by (auto simp: todo_def claimed_def neighbours_insert)
    with marks show ?thesis
      unfolding old new by auto
  next
    case merge
    let ?t' = "?t\<lparr>stage := Signalling\<rparr>"
    from merge have upd: "tasks s' = (tasks s)[k := ?t']"
      by simp
    note new = aggregates_update [OF k upd]
    from merge have marks: "visited s' = visited s"
      by simp
    from merge have "todo g ?t' = {}" "todo g ?t = {}" "chunk ?t' = chunk ?t"
      "claimed ?t' = {}" "claimed ?t = set (localNextLevel ?t)"
      "set (nextLevel s') = set (nextLevel s) \<union> set (localNextLevel ?t)"
      by (simp_all add: todo_def claimed_def neighbours_def)
    with marks show ?thesis
      unfolding old new by auto
  next
    case signal
    let ?t' = "?t\<lparr>stage := Finished\<rparr>"
    from signal have upd: "tasks s' = (tasks s)[k := ?t']"
      by simp
    note new = aggregates_update [OF k upd]
    from signal have marks: "visited s' = visited s"
      by simp
    from signal have "todo g ?t' = {}" "todo g ?t = {}" "chunk ?t' = chunk ?t"
      "claimed ?t' = {}" "claimed ?t = {}" "nextLevel s' = nextLevel s"
      by (simp_all add: todo_def claimed_def)
    with marks show ?thesis
      unfolding old new by auto
  qed
  then show "length (visited s') = length (visited s)"
    and "marked (visited s) \<subseteq> marked (visited s')"
    and "marked (visited s') \<subseteq> marked (visited s) \<union> todo_all g s"
    and "todo_all g s \<subseteq> todo_all g s' \<union> marked (visited s')"
    and "todo_all g s' \<subseteq> todo_all g s"
    and "chunks_all s' \<subseteq> chunks_all s"
    and "claims s' = claims s \<union> (marked (visited s') - marked (visited s))"
    by simp_all
qed

lemma task_step_wait_group:
  assumes step: "task_step g k s = Inr s'" and k: "k < length (tasks s)"
    and running: "stage (tasks s ! k) \<noteq> Finished"
    and count: "unat (wg_count (wg s)) = (\<Sum>t\<leftarrow>tasks s. active t)"
  shows "unat (wg_count (wg s')) = (\<Sum>t\<leftarrow>tasks s'. active t)"
proof -
  let ?t = "tasks s ! k"
  have sum: "(\<Sum>t\<leftarrow>(tasks s)[k := t']. active t) + active ?t = (\<Sum>t\<leftarrow>tasks s. active t) + active t'" for t'
    using k by (rule sum_list_map_update)
  from step running show ?thesis
  proof (cases rule: task_step_cases)
    case (won v vs)
    with sum [of "?t\<lparr>row := vs, localNextLevel := localNextLevel ?t @ [v]\<rparr>"] count show ?thesis
      by (simp add: active_def)
  next
    case (lost v vs)
    with sum [of "?t\<lparr>row := vs\<rparr>"] count show ?thesis
      by (simp add: active_def)
  next
    case (fetch u us)
    with sum [of "?t\<lparr>chunk := us, row := matrix g ! nat u\<rparr>"] count show ?thesis
      by (simp add: active_def)
  next
    case merge
    with sum [of "?t\<lparr>stage := Signalling\<rparr>"] count show ?thesis
      by (simp add: active_def)
  next
    case signal
    with sum [of "?t\<lparr>stage := Finished\<rparr>"]
    have less: "Suc (\<Sum>t\<leftarrow>tasks s'. active t) = (\<Sum>t\<leftarrow>tasks s. active t)"
      by (simp add: active_def)
    with count have "0 < unat (wg_count (wg s))"
      by simp
    then have "unat (wg_count (wg s) - 1) = unat (wg_count (wg s)) - 1"
      by unat_arith
    with less count signal show ?thesis
      by (simp add: Done_def)
  qed
qed

lemma task_step_succeeds:
  assumes k: "k < length (tasks s)"
    and chunks: "chunks_all s \<subseteq> {0..<int (length (matrix g))}"
    and rows: "todo_all g s \<subseteq> {0..<int (length (visited s))}"
  shows "\<exists>s'. task_step g k s = Inr s'"
proof -
  let ?t = "tasks s ! k"
  note old = aggregates_nth [OF k]
  show ?thesis
  proof (cases "stage ?t")
    case Scanning
    show ?thesis
    proof (cases "row ?t")
      case (Cons v vs)
      with Scanning have "v \<in> todo_all g s"
        unfolding old by (simp add: todo_def)
      with rows have "\<not> (v < 0 \<or> int (length (visited s)) \<le> v)"
        by auto
      with Scanning Cons show ?thesis
        by (simp add: task_step_def Let_def compare_exchange_strong_def)
    next
      case Nil
      show ?thesis
      proof (cases "chunk ?t")
        case (Cons u us)
        then have "u \<in> chunks_all s"
          unfolding old by simp
        with chunks have "\<not> (u < 0 \<or> int (length (matrix g)) \<le> u)"
          by auto
        with Scanning Nil Cons show ?thesis
          by (simp add: task_step_def Let_def)
      next
        case empty: Nil
        with Scanning Nil show ?thesis
          by (simp add: task_step_def Let_def)
      qed
    qed
  qed (simp_all add: task_step_def Let_def)
qed

subsection \<open>A level under every schedule\<close>

lemma level_inv_step:
  assumes ok: "Graph_ok g" and C: "C \<subseteq> {0..<vertexCount g}"
    and inv: "level_inv g V C s"
    and k: "k < length (tasks s)" and running: "stage (tasks s ! k) \<noteq> Finished"
  shows "\<exists>s'. task_step g k s = Inr s' \<and> level_inv g V C s'"
proof -
  from ok have size: "int (length (matrix g)) = vertexCount g"
    by (simp add: Graph_ok_def)
  from inv have len: "int (length (visited s)) = vertexCount g"
    using ok by (simp add: level_inv_def Graph_ok_def)
  from ok C have bounded: "neighbours g C \<subseteq> {0..<vertexCount g}"
    by (rule neighbours_bounded)
  from inv C have "chunks_all s \<subseteq> {0..<int (length (matrix g))}"
    unfolding size by (auto simp: level_inv_def)
  moreover from inv bounded have "todo_all g s \<subseteq> {0..<int (length (visited s))}"
    unfolding len by (auto simp: level_inv_def)
  ultimately obtain s' where step: "task_step g k s = Inr s'"
    using task_step_succeeds [OF k] by blast
  note effect = task_step_effect [OF step k running]
  from inv have count: "unat (wg_count (wg s)) = (\<Sum>t\<leftarrow>tasks s. active t)"
    by (simp add: level_inv_def)
  have "unat (wg_count (wg s')) = (\<Sum>t\<leftarrow>tasks s'. active t)"
    using step k running count by (rule task_step_wait_group)
  moreover from inv effect(1) have "length (visited s') = nat (vertexCount g)"
    by (simp add: level_inv_def)
  moreover from inv effect(2) have "V \<subseteq> marked (visited s')"
    by (auto simp: level_inv_def)
  moreover from inv effect(3) have "marked (visited s') \<subseteq> V \<union> neighbours g C"
    unfolding level_inv_def by blast
  moreover from inv effect(2,4) have "neighbours g C \<subseteq> marked (visited s') \<union> todo_all g s'"
    unfolding level_inv_def by blast
  moreover from inv effect(5) have "todo_all g s' \<subseteq> neighbours g C"
    unfolding level_inv_def by blast
  moreover from inv effect(6) have "chunks_all s' \<subseteq> C"
    unfolding level_inv_def by blast
  moreover from inv effect(2,7) have "claims s' = marked (visited s') - V"
    unfolding level_inv_def by blast
  ultimately have "level_inv g V C s'"
    by (simp add: level_inv_def)
  with step show ?thesis
    by blast
qed

lemma runnable_empty: "runnable ts = [] \<longleftrightarrow> (\<forall>t\<in>set ts. stage t = Finished)"
  unfolding runnable_def filter_empty_conv
  by (metis atLeastLessThan_iff in_set_conv_nth nth_mem set_upt zero_le)

lemma active_sum_zero: "(\<Sum>t\<leftarrow>ts. active t) = 0 \<longleftrightarrow> (\<forall>t\<in>set ts. stage t = Finished)"
  by (auto simp: active_def)

lemma level_run_inv:
  "Graph_ok g \<Longrightarrow> C \<subseteq> {0..<vertexCount g} \<Longrightarrow> level_inv g V C s \<Longrightarrow>
   \<exists>sched' s'. level_run g sched s = Inr (sched', s') \<and> level_inv g V C s' \<and>
     (\<forall>t\<in>set (tasks s'). stage t = Finished)"
proof (induction g sched s rule: level_run.induct)
  case (1 g sched s)
  let ?ks = "runnable (tasks s)"
  let ?k = "?ks ! (choice sched mod length ?ks)"
  from "1.prems" have count: "unat (wg_count (wg s)) = (\<Sum>t\<leftarrow>tasks s. active t)"
    by (simp add: level_inv_def)
  show ?case
  proof (cases "Wait (wg s)")
    case (Some w)
    then have zero: "wg_count (wg s) = 0" and w: "wg_count w = 0"
      by (auto simp: Wait_def Wait_leave_def Wait_enter_def split: if_splits)
    with count have "(\<Sum>t\<leftarrow>tasks s. active t) = 0"
      by simp
    then have finished: "\<forall>t\<in>set (tasks s). stage t = Finished"
      by (simp only: active_sum_zero)
    then have "?ks = []"
      by (simp add: runnable_empty)
    with Some have "level_run g sched s = Inr (sched, s\<lparr>wg := w\<rparr>)"
      by (simp add: level_run.simps [of g sched s])
    moreover from "1.prems" zero w have "level_inv g V C (s\<lparr>wg := w\<rparr>)"
      by (simp add: level_inv_def todo_all_def chunks_all_def claims_def)
    ultimately show ?thesis
      using finished by simp
  next
    case None
    then have "wg_count (wg s) \<noteq> 0"
      by (auto simp: Wait_def Wait_leave_def Wait_enter_def split: if_splits)
    with count have "(\<Sum>t\<leftarrow>tasks s. active t) \<noteq> 0"
      by (metis unat_eq_0)
    then have ks: "?ks \<noteq> []"
      by (simp only: runnable_empty active_sum_zero not_False_eq_True)
    then have "?k \<in> set ?ks"
      by simp
    then have k: "?k < length (tasks s)" "stage (tasks s ! ?k) \<noteq> Finished"
      by (simp_all add: runnable_iff)
    with "1.prems" obtain s1 where step: "task_step g ?k s = Inr s1" and inv: "level_inv g V C s1"
      using level_inv_step [of g C V s ?k] by blast
    from "1.prems" inv
    have "\<exists>sched' s'. level_run g (tl sched) s1 = Inr (sched', s') \<and> level_inv g V C s' \<and>
        (\<forall>t\<in>set (tasks s'). stage t = Finished)"
      by (intro "1.IH" [OF None ks step])
    with None ks step show ?thesis
      by (simp add: level_run.simps [of g sched s])
  qed
qed

lemma neighbours_UN: "neighbours g (\<Union>i\<in>I. A i) = (\<Union>i\<in>I. neighbours g (A i))"
  by (auto simp: neighbours_def)

lemma start_level_inv:
  assumes nonempty: "currentLevel \<noteq> []" and size: "length currentLevel < 2 ^ 63"
    and workers: "thread_count \<noteq> 0" and len: "length flags = nat (vertexCount g)"
  shows "\<exists>s. start_level thread_count flags currentLevel = Inr s \<and>
    level_inv g (marked flags) (set currentLevel) s"
proof -
  define L where "L = length currentLevel"
  define c where "c = (L + unat thread_count - 1) div unat thread_count"
  define k where "k = (L + c - 1) div c"
  define s where "s = \<lparr>visited = flags, nextLevel = [], wg = WaitGroup (of_nat k),
    tasks = map (\<lambda>i. \<lparr>chunk = take c (drop (i * c) currentLevel), row = [],
      localNextLevel = [], stage = Scanning\<rparr>) [0..<k]\<rparr>"
  from nonempty size workers have start: "start_level thread_count flags currentLevel = Inr s"
    unfolding s_def k_def c_def L_def by (rule start_level_value)
  from nonempty size have L: "0 < L" "L < 2 ^ 63"
    by (simp_all add: L_def)
  from workers have "0 < unat thread_count"
    by (simp add: unat_gt_0)
  with L have c: "0 < c" "c \<le> L"
    unfolding c_def by (simp_all only: ceil_div_pos ceil_div_le)
  with L have k: "k \<le> L"
    unfolding k_def by (simp only: ceil_div_le)
  from L(1) c(1) have "L \<le> c * k"
    unfolding k_def using ceil_div_bounds [of L c] by simp
  then have whole: "take (k * c) currentLevel = currentLevel"
    by (simp add: L_def mult.commute)
  have task: "tasks s ! j = \<lparr>chunk = take c (drop (j * c) currentLevel), row = [],
      localNextLevel = [], stage = Scanning\<rparr>" if "j < k" for j
    using that by (simp add: s_def)
  have tasks: "length (tasks s) = k"
    by (simp add: s_def)
  have "chunks_all s = (\<Union>j<k. set (take c (drop (j * c) currentLevel)))"
    unfolding chunks_all_def tasks by (simp add: task)
  also have "\<dots> = set (concat (map (\<lambda>j. take c (drop (j * c) currentLevel)) [0..<k]))"
    by (auto simp: lessThan_atLeast0)
  also have "\<dots> = set currentLevel"
    by (simp only: concat_chunks whole)
  finally have chunks: "chunks_all s = set currentLevel" .
  have "todo_all g s = (\<Union>j<k. neighbours g (set (take c (drop (j * c) currentLevel))))"
    unfolding todo_all_def tasks by (simp add: task todo_def)
  also have "\<dots> = neighbours g (chunks_all s)"
    unfolding chunks_all_def tasks by (simp add: task neighbours_UN)
  finally have todo: "todo_all g s = neighbours g (set currentLevel)"
    by (simp only: chunks)
  have claims: "claims s = {}"
    unfolding claims_def tasks by (simp add: task claimed_def) (simp add: s_def)
  have "(\<Sum>t\<leftarrow>tasks s. active t) = k"
    by (simp add: s_def comp_def active_def sum_list_triv)
  moreover have "unat (of_nat k :: size_t) = k"
    using k L by (intro unat_size_of_nat) simp
  ultimately have count: "unat (wg_count (wg s)) = (\<Sum>t\<leftarrow>tasks s. active t)"
    by (simp add: s_def WaitGroup_def)
  have "visited s = flags"
    by (simp add: s_def)
  with len chunks todo claims count have "level_inv g (marked flags) (set currentLevel) s"
    by (simp add: level_inv_def)
  with start show ?thesis
    by blast
qed

lemma level_result:
  assumes ok: "Graph_ok g" and workers: "thread_count \<noteq> 0"
    and nonempty: "currentLevel \<noteq> []" and size: "length currentLevel < 2 ^ 63"
    and range: "set currentLevel \<subseteq> {0..<vertexCount g}"
    and len: "length flags = nat (vertexCount g)"
  shows "\<exists>s sched' s'. start_level thread_count flags currentLevel = Inr s \<and>
    level_run g sched s = Inr (sched', s') \<and>
    length (visited s') = length flags \<and>
    marked (visited s') = marked flags \<union> neighbours g (set currentLevel) \<and>
    set (nextLevel s') = neighbours g (set currentLevel) - marked flags \<and>
    distinct (nextLevel s')"
proof -
  from nonempty size workers len obtain s
    where start: "start_level thread_count flags currentLevel = Inr s"
      and inv: "level_inv g (marked flags) (set currentLevel) s"
    using start_level_inv by blast
  from ok range inv obtain sched' s' where run: "level_run g sched s = Inr (sched', s')"
    and inv': "level_inv g (marked flags) (set currentLevel) s'"
    and finished: "\<forall>t\<in>set (tasks s'). stage t = Finished"
    using level_run_inv [of g "set currentLevel" "marked flags" s sched] by blast
  from finished have "todo_all g s' = {}"
    by (simp add: todo_all_def todo_def)
  with inv' have marks: "marked (visited s') = marked flags \<union> neighbours g (set currentLevel)"
    unfolding level_inv_def by blast
  from finished have "claims s' = set (nextLevel s')"
    by (simp add: claims_def claimed_def)
  with inv' marks have next_level: "set (nextLevel s') = neighbours g (set currentLevel) - marked flags"
    unfolding level_inv_def by blast
  from inv' len have len': "length (visited s') = length flags"
    by (simp add: level_inv_def)
  from finished have merged: "(\<Sum>t\<leftarrow>tasks s'. unmerged t) = 0"
    by (simp add: unmerged_def)
  from run have "unclaimed s' = unclaimed s"
    by (simp add: level_run_unclaimed)
  with start have "unclaimed s' = count_list flags False"
    by (simp add: start_level_unclaimed)
  then have "count_list (visited s') False + length (nextLevel s') + (\<Sum>t\<leftarrow>tasks s'. unmerged t) =
      count_list flags False"
    by (simp only: unclaimed_def)
  then have "count_list (visited s') False + length (nextLevel s') = count_list flags False"
    by (simp only: merged add_0_right)
  with len' card_marked [of "visited s'"] card_marked [of flags]
  have "card (marked (visited s')) = card (marked flags) + length (nextLevel s')"
    by simp
  moreover have "card (marked (visited s')) = card (marked flags) + card (set (nextLevel s'))"
  proof -
    have "marked (visited s') = marked flags \<union> set (nextLevel s')"
      using marks next_level by blast
    moreover have "marked flags \<inter> set (nextLevel s') = {}"
      using next_level by blast
    ultimately show ?thesis
      by (simp add: card_Un_disjoint finite_marked)
  qed
  ultimately have "distinct (nextLevel s')"
    by (simp add: card_distinct)
  with start run len' marks next_level show ?thesis
    by blast
qed

lemma neighbours_singletons: "neighbours g U = (\<Union>u\<in>U. neighbours g {u})"
  by (simp add: neighbours_def)

subsection \<open>The parallel traversal visits the reachable vertices\<close>

lemma pbfs_loop_reachable:
  "Graph_ok g \<Longrightarrow> thread_count \<noteq> 0 \<Longrightarrow> length flags = nat (vertexCount g) \<Longrightarrow>
   distinct currentLevel \<Longrightarrow> set currentLevel \<subseteq> marked flags \<Longrightarrow> s \<in> marked flags \<Longrightarrow>
   marked flags \<subseteq> reachable g s \<Longrightarrow>
   \<forall>u\<in>marked flags - set currentLevel. neighbours g {u} \<subseteq> marked flags \<Longrightarrow>
   \<exists>r. pbfs_loop g thread_count sched flags currentLevel = Inr r \<and>
     length (marks r) = length flags \<and>
     marked (marks r) = reachable g s \<and>
     distinct (concat (frontiers r)) \<and>
     set (concat (frontiers r)) = set currentLevel \<union> (marked (marks r) - marked flags)"
proof (induction g thread_count sched flags currentLevel rule: pbfs_loop.induct)
  case (1 g thread_count sched flags currentLevel)
  let ?V = "marked flags"
  let ?N = "neighbours g (set currentLevel)"
  show ?case
  proof (cases "currentLevel = []")
    case True
    with "1.prems" have "reachable g s \<subseteq> ?V"
      by (intro reachable_closed) simp_all
    with "1.prems" have "marked flags = reachable g s"
      by blast
    moreover from True
    have "pbfs_loop g thread_count sched flags currentLevel = Inr \<lparr>marks = flags, frontiers = []\<rparr>"
      by (simp add: pbfs_loop.simps [of g thread_count sched flags "[]"])
    ultimately show ?thesis
      using True by simp
  next
    case False
    from "1.prems" have ok: "Graph_ok g" and workers: "thread_count \<noteq> 0"
      and len: "length flags = nat (vertexCount g)"
      by simp_all
    from ok have count: "0 \<le> vertexCount g" "vertexCount g < 2 ^ 31"
      by (simp_all add: Graph_ok_def)
    have bounded: "?V \<subseteq> {0..<vertexCount g}"
      using marked_bounded [of flags] len count by simp
    with "1.prems" have range: "set currentLevel \<subseteq> {0..<vertexCount g}"
      by blast
    have "length currentLevel = card (set currentLevel)"
      using "1.prems" by (simp add: distinct_card)
    also have "\<dots> \<le> card {0..<vertexCount g}"
      using range by (intro card_mono) simp_all
    also have "\<dots> < 2 ^ 63"
      using count by simp
    finally have size: "length currentLevel < 2 ^ 63" .
    from ok workers False size range len
    obtain s0 sched' s' where start: "start_level thread_count flags currentLevel = Inr s0"
      and run: "level_run g sched s0 = Inr (sched', s')"
      and len': "length (visited s') = length flags"
      and marks: "marked (visited s') = ?V \<union> ?N"
      and next_level: "set (nextLevel s') = ?N - ?V"
      and dist: "distinct (nextLevel s')"
      using level_result [of g thread_count currentLevel flags sched] by blast
    have reach: "?N \<subseteq> reachable g s"
    proof
      fix v
      assume "v \<in> ?N"
      then obtain u where "u \<in> set currentLevel" "v \<in> neighbours g {u}"
        by (auto simp: neighbours_def)
      with "1.prems" show "v \<in> reachable g s"
        by (auto intro: reachable_step)
    qed
    have closed: "\<forall>u\<in>marked (visited s') - set (nextLevel s'). neighbours g {u} \<subseteq> marked (visited s')"
    proof
      fix u
      assume "u \<in> marked (visited s') - set (nextLevel s')"
      with marks next_level have u: "u \<in> ?V"
        by blast
      show "neighbours g {u} \<subseteq> marked (visited s')"
      proof (cases "u \<in> set currentLevel")
        case True
        then have "neighbours g {u} \<subseteq> ?N"
          by (auto simp: neighbours_def)
        with marks show ?thesis
          by blast
      next
        case False
        with u "1.prems" have "neighbours g {u} \<subseteq> ?V"
          by blast
        with marks show ?thesis
          by blast
      qed
    qed
    have "\<exists>r. pbfs_loop g thread_count sched' (visited s') (nextLevel s') = Inr r \<and>
      length (marks r) = length (visited s') \<and>
      marked (marks r) = reachable g s \<and>
      distinct (concat (frontiers r)) \<and>
      set (concat (frontiers r)) = set (nextLevel s') \<union> (marked (marks r) - marked (visited s'))"
    proof (rule "1.IH" [OF False start run refl ok workers])
      show "length (visited s') = nat (vertexCount g)"
        using len len' by simp
      show "distinct (nextLevel s')"
        by (rule dist)
      show "set (nextLevel s') \<subseteq> marked (visited s')"
        using marks next_level by blast
      show "s \<in> marked (visited s')"
        using marks "1.prems" by blast
      show "marked (visited s') \<subseteq> reachable g s"
        using marks reach "1.prems" by blast
      show "\<forall>u\<in>marked (visited s') - set (nextLevel s'). neighbours g {u} \<subseteq> marked (visited s')"
        by (rule closed)
    qed
    then obtain r where rest: "pbfs_loop g thread_count sched' (visited s') (nextLevel s') = Inr r"
      and r: "length (marks r) = length (visited s')" "marked (marks r) = reachable g s"
        "distinct (concat (frontiers r))"
        "set (concat (frontiers r)) = set (nextLevel s') \<union> (marked (marks r) - marked (visited s'))"
      by blast
    let ?r = "r\<lparr>frontiers := currentLevel # frontiers r\<rparr>"
    from False start run rest have "pbfs_loop g thread_count sched flags currentLevel = Inr ?r"
      by (simp add: pbfs_loop.simps [of g thread_count sched flags currentLevel])
    moreover from r len' have "length (marks ?r) = length flags" "marked (marks ?r) = reachable g s"
      by simp_all
    moreover have "set (concat (frontiers ?r)) = set currentLevel \<union> (marked (marks ?r) - ?V)"
      using r(2,4) marks next_level reach "1.prems" by auto
    moreover have "distinct (concat (frontiers ?r))"
    proof -
      have "set currentLevel \<inter> set (concat (frontiers r)) = {}"
        using r(4) marks next_level "1.prems" by auto
      with r(3) "1.prems" show ?thesis
        by simp
    qed
    ultimately show ?thesis
      by blast
  qed
qed

lemma parallelBFS_reachable:
  assumes "Graph_ok g" and "thread_count \<noteq> 0" and "0 \<le> startVertex" and "startVertex < vertexCount g"
  shows "\<exists>r. parallelBFS thread_count sched g startVertex = Inr r \<and>
    length (marks r) = nat (vertexCount g) \<and>
    marked (marks r) = reachable g startVertex \<and>
    distinct (concat (frontiers r)) \<and>
    set (concat (frontiers r)) = marked (marks r)"
proof -
  let ?flags = "(replicate (nat (vertexCount g)) False)[nat startVertex := True]"
  from assms have marks: "marked ?flags = {startVertex}"
    by (simp add: marked_update marked_replicate)
  have "\<exists>r. pbfs_loop g thread_count sched ?flags [startVertex] = Inr r \<and>
     length (marks r) = length ?flags \<and>
     marked (marks r) = reachable g startVertex \<and>
     distinct (concat (frontiers r)) \<and>
     set (concat (frontiers r)) = set [startVertex] \<union> (marked (marks r) - marked ?flags)"
  proof (rule pbfs_loop_reachable)
    show "Graph_ok g" "thread_count \<noteq> 0"
      by (rule assms)+
    show "length ?flags = nat (vertexCount g)" "distinct [startVertex]"
      by simp_all
    show "set [startVertex] \<subseteq> marked ?flags" "startVertex \<in> marked ?flags"
      "marked ?flags \<subseteq> reachable g startVertex"
      "\<forall>u\<in>marked ?flags - set [startVertex]. neighbours g {u} \<subseteq> marked ?flags"
      by (simp_all add: marks reachable_start)
  qed
  then obtain r where r: "pbfs_loop g thread_count sched ?flags [startVertex] = Inr r"
    "length (marks r) = length ?flags" "marked (marks r) = reachable g startVertex"
    "distinct (concat (frontiers r))"
    "set (concat (frontiers r)) = set [startVertex] \<union> (marked (marks r) - marked ?flags)"
    by blast
  from r(3) have "startVertex \<in> marked (marks r)"
    by (simp add: reachable_start)
  with r(5) marks have "set (concat (frontiers r)) = marked (marks r)"
    by auto
  moreover from assms r(1) have "parallelBFS thread_count sched g startVertex = Inr r"
    by (simp add: parallelBFS_def Let_def)
  ultimately show ?thesis
    using r(2,3,4) by auto
qed

lemma parallelBFS_without_workers:
  assumes "0 \<le> startVertex" and "startVertex < vertexCount g"
  shows "parallelBFS 0 sched g startVertex = Inl DivisionByZero"
proof -
  have "start_level 0 flags currentLevel = Inl DivisionByZero" for flags currentLevel
    by (simp add: start_level_def)
  then have "pbfs_loop g 0 sched flags [startVertex] = Inl DivisionByZero" for flags
    by (simp add: pbfs_loop.simps [of g 0 sched flags "[startVertex]"])
  with assms show ?thesis
    by (simp add: parallelBFS_def Let_def)
qed

section \<open>The claims\<close>

text \<open>
  Claim C1. For every graph made by the constructor and \<^verbatim>\<open>addEdge\<close> calls, every
  start vertex with \<open>0 \<le> startVertex < vertexCount\<close>, every worker count other than 0
  and every schedule of the chunk tasks, \<^verbatim>\<open>parallelBFS\<close> and \<^verbatim>\<open>bfs\<close> both return,
  and the set of vertices whose flag \<^verbatim>\<open>parallelBFS\<close> has set equals the set of
  vertices that \<^verbatim>\<open>bfs\<close> has marked, which is the set of vertices reachable from the
  start vertex. The condition on the worker count is needed: nothing in the program
  makes the configured count positive, and with a count of 0 the chunk size is a
  division by zero, whereas \<^verbatim>\<open>bfs\<close> returns (lemma \<open>parallelBFS_without_workers\<close> and
  the example after the theorem).
\<close>

theorem parallelBFS_visits_what_bfs_visits:
  assumes "build n es = Inr g" and "thread_count \<noteq> 0"
    and "0 \<le> startVertex" and "startVertex < vertexCount g"
  shows "\<exists>r vs. parallelBFS thread_count sched g startVertex = Inr r \<and>
    bfs g startVertex = Inr vs \<and>
    marked (marks r) = marked vs \<and>
    marked vs = reachable g startVertex"
proof -
  from assms(1) have ok: "Graph_ok g"
    by (rule build_ok)
  from ok assms(2-4) obtain r where "parallelBFS thread_count sched g startVertex = Inr r"
    "marked (marks r) = reachable g startVertex"
    using parallelBFS_reachable [of g thread_count startVertex sched] by blast
  moreover from ok assms(3,4) obtain vs where "bfs g startVertex = Inr vs"
    "marked vs = reachable g startVertex"
    using bfs_reachable [of g startVertex] by blast
  ultimately show ?thesis
    by simp
qed

text \<open>
  The graph with 6 vertices and the edges 0\<rightarrow>1, 0\<rightarrow>2, 1\<rightarrow>3, 2\<rightarrow>3, 3\<rightarrow>4, traversed from
  vertex 0 with two workers under a schedule that interleaves the two tasks of the
  second level.
\<close>

theorem parallelBFS_visits_what_bfs_visits_witness:
  "build 6 [(0, 1), (0, 2), (1, 3), (2, 3), (3, 4)] =
     Inr \<lparr>vertexCount = 6, matrix = [[1, 2], [3], [3], [4], [], []]\<rparr> \<and>
   (2 :: unsigned_int) \<noteq> 0 \<and> (0 :: int) \<le> 0 \<and>
   0 < vertexCount \<lparr>vertexCount = 6, matrix = [[1, 2], [3], [3], [4], [], []]\<rparr> \<and>
   parallelBFS 2 [1, 0, 1, 1, 0, 1, 1, 1, 0] \<lparr>vertexCount = 6, matrix = [[1, 2], [3], [3], [4], [], []]\<rparr> 0 =
     Inr \<lparr>marks = [True, True, True, True, True, False], frontiers = [[0], [1, 2], [3], [4]]\<rparr> \<and>
   bfs \<lparr>vertexCount = 6, matrix = [[1, 2], [3], [3], [4], [], []]\<rparr> 0 =
     Inr [True, True, True, True, True, False] \<and>
   marked [True, True, True, True, True, False] = {0, 1, 2, 3, 4}"
proof -
  let ?g = "\<lparr>vertexCount = 6, matrix = [[1, 2], [3], [3], [4], [], []]\<rparr>"
  have built: "build 6 [(0, 1), (0, 2), (1, 3), (2, 3), (3, 4)] = Inr ?g"
    by code_simp
  have par: "parallelBFS 2 [1, 0, 1, 1, 0, 1, 1, 1, 0] ?g 0 =
      Inr \<lparr>marks = [True, True, True, True, True, False], frontiers = [[0], [1, 2], [3], [4]]\<rparr>"
    by code_simp
  have seq: "bfs ?g 0 = Inr [True, True, True, True, True, False]"
    by code_simp
  have "\<exists>r vs. parallelBFS 2 [1, 0, 1, 1, 0, 1, 1, 1, 0] ?g 0 = Inr r \<and> bfs ?g 0 = Inr vs \<and>
      marked (marks r) = marked vs \<and> marked vs = reachable ?g 0"
    using built by (rule parallelBFS_visits_what_bfs_visits) simp_all
  with built par seq show ?thesis
    by (simp add: marked_def)
qed

text \<open>
  Without the condition on the worker count the property fails. With \<^verbatim>\<open>TP_SIZE\<close> unset
  on a host whose \<^verbatim>\<open>hardware_concurrency()\<close> is 0 the configured count is 0; then, on
  the graph with 2 vertices and the edge 0\<rightarrow>1 and from vertex 0, \<^verbatim>\<open>parallelBFS\<close>
  divides by zero in the first level under every schedule and marks no set of
  vertices, while \<^verbatim>\<open>bfs\<close> marks both vertices.
\<close>

theorem parallelBFS_division_by_zero_counterexample:
  "build 2 [(0, 1)] = Inr \<lparr>vertexCount = 2, matrix = [[1], []]\<rparr> \<and>
   THREAD_COUNT None 0 = 0 \<and>
   (\<forall>sched. parallelBFS (THREAD_COUNT None 0) sched \<lparr>vertexCount = 2, matrix = [[1], []]\<rparr> 0 =
      Inl DivisionByZero) \<and>
   bfs \<lparr>vertexCount = 2, matrix = [[1], []]\<rparr> 0 = Inr [True, True] \<and>
   \<not> (\<exists>sched r vs. parallelBFS (THREAD_COUNT None 0) sched \<lparr>vertexCount = 2, matrix = [[1], []]\<rparr> 0 = Inr r \<and>
      bfs \<lparr>vertexCount = 2, matrix = [[1], []]\<rparr> 0 = Inr vs \<and> marked (marks r) = marked vs)"
proof -
  let ?g = "\<lparr>vertexCount = 2, matrix = [[1], []]\<rparr>"
  have built: "build 2 [(0, 1)] = Inr ?g"
    by code_simp
  have count: "THREAD_COUNT None 0 = 0"
    by (simp add: THREAD_COUNT_def)
  have par: "parallelBFS (THREAD_COUNT None 0) sched ?g 0 = Inl DivisionByZero" for sched
    unfolding count by (rule parallelBFS_without_workers) simp_all
  have seq: "bfs ?g 0 = Inr [True, True]"
    by code_simp
  from built count par seq show ?thesis
    by simp
qed

text \<open>
  Claim C2. No step of a chunk task clears a flag, and a step appends a vertex to
  the local list of its task only when that step has turned the flag of the vertex
  from false to true; so a flag goes from false to true at most once. Over a whole
  run, for every graph, valid start vertex, worker count other than 0 and schedule,
  the frontiers of all levels together hold every marked vertex exactly once: no
  vertex is appended twice, by whatever task and at whatever level. (The frontiers
  after the first are the local lists of the tasks, merged.)
\<close>

theorem flags_claimed_once:
  "(task_step g k s = Inr s' \<and> k < length (tasks s) \<longrightarrow>
      length (visited s') = length (visited s) \<and>
      marked (visited s) \<subseteq> marked (visited s') \<and>
      (\<forall>j<length (tasks s).
         \<forall>v\<in>set (localNextLevel (tasks s' ! j)) - set (localNextLevel (tasks s ! j)).
           v \<notin> marked (visited s) \<and> v \<in> marked (visited s'))) \<and>
   (build n es = Inr g' \<and> thread_count \<noteq> 0 \<and> 0 \<le> startVertex \<and> startVertex < vertexCount g' \<longrightarrow>
      (\<exists>r. parallelBFS thread_count sched g' startVertex = Inr r \<and>
         distinct (concat (frontiers r)) \<and>
         set (concat (frontiers r)) = marked (marks r)))"
proof (intro conjI impI)
  assume "task_step g k s = Inr s' \<and> k < length (tasks s)"
  then have step: "task_step g k s = Inr s'" and k: "k < length (tasks s)"
    by simp_all
  have "length (visited s') = length (visited s) \<and>
    marked (visited s) \<subseteq> marked (visited s') \<and>
    (\<forall>j<length (tasks s).
       \<forall>v\<in>set (localNextLevel (tasks s' ! j)) - set (localNextLevel (tasks s ! j)).
         v \<notin> marked (visited s) \<and> v \<in> marked (visited s'))"
  proof (cases "stage (tasks s ! k) = Finished")
    case True
    with step have "s' = s"
      by (simp add: task_step_def)
    then show ?thesis
      by simp
  next
    case False
    with step show ?thesis
    proof (cases rule: task_step_cases)
      case (won v vs)
      then have "marked (visited s') = insert v (marked (visited s))" "v \<notin> marked (visited s)"
        by (simp_all add: marked_update marked_iff)
      with won k show ?thesis
        by (auto simp: nth_list_update split: if_splits)
    qed (use k in \<open>auto simp: nth_list_update split: if_splits\<close>)
  qed
  then show "length (visited s') = length (visited s)"
    and "marked (visited s) \<subseteq> marked (visited s')"
    and "\<forall>j<length (tasks s).
       \<forall>v\<in>set (localNextLevel (tasks s' ! j)) - set (localNextLevel (tasks s ! j)).
         v \<notin> marked (visited s) \<and> v \<in> marked (visited s')"
    by simp_all
next
  assume "build n es = Inr g' \<and> thread_count \<noteq> 0 \<and> 0 \<le> startVertex \<and> startVertex < vertexCount g'"
  then have "Graph_ok g'" "thread_count \<noteq> 0" "0 \<le> startVertex" "startVertex < vertexCount g'"
    by (auto intro: build_ok)
  then show "\<exists>r. parallelBFS thread_count sched g' startVertex = Inr r \<and>
      distinct (concat (frontiers r)) \<and> set (concat (frontiers r)) = marked (marks r)"
    using parallelBFS_reachable [of g' thread_count startVertex sched] by blast
qed

theorem flags_claimed_once_witness:
  "task_step \<lparr>vertexCount = 2, matrix = [[1], []]\<rparr> 0
     \<lparr>visited = [True, False], nextLevel = [], wg = WaitGroup 1,
      tasks = [\<lparr>chunk = [], row = [1], localNextLevel = [], stage = Scanning\<rparr>]\<rparr> =
   Inr \<lparr>visited = [True, True], nextLevel = [], wg = WaitGroup 1,
        tasks = [\<lparr>chunk = [], row = [], localNextLevel = [1], stage = Scanning\<rparr>]\<rparr> \<and>
   marked [True, False] \<subseteq> marked [True, True] \<and>
   1 \<notin> marked [True, False] \<and> 1 \<in> marked [True, True] \<and>
   build 2 [(0, 1)] = Inr \<lparr>vertexCount = 2, matrix = [[1], []]\<rparr> \<and>
   parallelBFS 1 [] \<lparr>vertexCount = 2, matrix = [[1], []]\<rparr> 0 =
     Inr \<lparr>marks = [True, True], frontiers = [[0], [1]]\<rparr> \<and>
   distinct (concat [[0], [1 :: int]]) \<and>
   set (concat [[0], [1]]) = marked [True, True]"
proof -
  let ?g = "\<lparr>vertexCount = 2, matrix = [[1], []]\<rparr>"
  let ?s = "\<lparr>visited = [True, False], nextLevel = [], wg = WaitGroup 1,
      tasks = [\<lparr>chunk = [], row = [1], localNextLevel = [], stage = Scanning\<rparr>]\<rparr>"
  let ?s' = "\<lparr>visited = [True, True], nextLevel = [], wg = WaitGroup 1,
      tasks = [\<lparr>chunk = [], row = [], localNextLevel = [1], stage = Scanning\<rparr>]\<rparr>"
  have step: "task_step ?g 0 ?s = Inr ?s'"
    by code_simp
  have built: "build 2 [(0, 1)] = Inr ?g"
    by code_simp
  have par: "parallelBFS 1 [] ?g 0 = Inr \<lparr>marks = [True, True], frontiers = [[0], [1]]\<rparr>"
    by code_simp
  from step built par show ?thesis
    using flags_claimed_once [of ?g 0 ?s ?s' 2 "[(0, 1)]" ?g 1 0 "[]"]
    by (simp add: marked_def)
qed

text \<open>
  Claim C3. \<^verbatim>\<open>Pop\<close> returns the front item whenever the state is not FORCE_STOPPED
  and an item is present; it returns empty in state FORCE_STOPPED whatever is pending;
  after \<^verbatim>\<open>Stop(STOPPED)\<close> the items already enqueued are popped one by one in
  their order, and the next \<^verbatim>\<open>Pop\<close> on the drained queue returns empty. The
  order is first-in first-out: values pushed onto a fresh queue come back from as many
  \<^verbatim>\<open>Pop\<close> calls in the order of the pushes. (On an empty RUNNING queue
  \<^verbatim>\<open>Pop\<close> does not return.)
\<close>

theorem Pop_fifo:
  "(st \<noteq> FORCE_STOPPED \<longrightarrow> Pop (st, x # xs) = Some (Some x, (st, xs))) \<and>
   Pop (FORCE_STOPPED, xs) = Some (None, (FORCE_STOPPED, xs)) \<and>
   Pop_n (length xs) (Stop STOPPED (st, xs)) = Some (map Some xs, (STOPPED, [])) \<and>
   Pop (STOPPED, []) = Some (None, (STOPPED, [])) \<and>
   Pop (RUNNING, []) = None \<and>
   run_calls (map CallPush vs @ replicate (length vs) CallPop) UnboundedBlockingQueue =
     (replicate (length vs) (RetPush True) @ map (\<lambda>v. RetPop (Some v)) vs, (RUNNING, []))"
proof -
  have fifo: "run_calls (map CallPush vs @ replicate (length vs) CallPop) UnboundedBlockingQueue =
     (replicate (length vs) (RetPush True) @ map (\<lambda>v. RetPop (Some v)) vs, (RUNNING, []))"
    using run_pops [of RUNNING vs]
    by (simp add: run_calls_append run_pushes UnboundedBlockingQueue_def)
  have drain: "Pop_n (length xs) (Stop STOPPED (st, xs)) = Some (map Some xs, (STOPPED, []))"
    by (simp add: Stop_def Pop_n_drain)
  show ?thesis
    using fifo drain by (simp add: Pop_def)
qed

theorem Pop_fifo_witness:
  "RUNNING \<noteq> FORCE_STOPPED \<and>
   Pop (RUNNING, [1, 2, 3 :: nat]) = Some (Some 1, (RUNNING, [2, 3])) \<and>
   Pop (FORCE_STOPPED, [2, 3 :: nat]) = Some (None, (FORCE_STOPPED, [2, 3])) \<and>
   Pop_n (length [2, 3 :: nat]) (Stop STOPPED (RUNNING, [2, 3 :: nat])) = Some ([Some 2, Some 3], (STOPPED, []))"
  using Pop_fifo [of RUNNING "1 :: nat" "[2, 3]" "[]"] by (simp add: Pop_def Stop_def)

text \<open>
  Claim C4. \<^verbatim>\<open>Push\<close> is \<^verbatim>\<open>Emplace\<close>; it returns true exactly when the state
  is RUNNING, and then the value is appended at the back of the queue. In any other
  state it returns false and leaves the queue as it was, so the value is not enqueued:
  unless the same value is already pending or is pushed again by a later call, no
  later \<^verbatim>\<open>Pop\<close> returns it and a pool thread running on the queue never executes
  it.
\<close>

theorem Push_iff_running:
  "Push v q = Emplace v q \<and>
   fst (Push v q) = (fst q = RUNNING) \<and>
   (fst q = RUNNING \<longrightarrow> snd (Push v q) = (RUNNING, snd q @ [v])) \<and>
   (fst q \<noteq> RUNNING \<longrightarrow> snd (Push v q) = q) \<and>
   (fst q \<noteq> RUNNING \<and> v \<notin> set (snd q) \<and> CallPush v \<notin> set cs \<longrightarrow>
      RetPop (Some v) \<notin> set (fst (run_calls cs (snd (Push v q)))) \<and>
      v \<notin> set (fst (snd (worker (snd (Push v q)) []))))"
proof -
  have "RetPop (Some v) \<notin> set (fst (run_calls cs q))"
    if "v \<notin> set (snd q)" "CallPush v \<notin> set cs"
    using that popped_from by fastforce
  moreover have "v \<notin> set (fst (snd (worker q [])))" if "v \<notin> set (snd q)"
    using that worker_executes [of q "[]"] by auto
  ultimately show ?thesis
    by (auto simp: Push_def Emplace_def)
qed

theorem Push_iff_running_witness:
  "fst (Push (7 :: nat) (RUNNING, [1])) = True \<and> snd (Push (7 :: nat) (RUNNING, [1])) = (RUNNING, [1, 7]) \<and>
   fst (Push (7 :: nat) (STOPPED, [1])) = False \<and> snd (Push (7 :: nat) (STOPPED, [1])) = (STOPPED, [1]) \<and>
   RetPop (Some 7) \<notin> set (fst (run_calls [CallPop, CallPop] (snd (Push (7 :: nat) (STOPPED, [1]))))) \<and>
   7 \<notin> set (fst (snd (worker (snd (Push (7 :: nat) (STOPPED, [1]))) [])))"
  using Push_iff_running [of "7 :: nat" "(RUNNING, [1])" "[]"]
    Push_iff_running [of "7 :: nat" "(STOPPED, [1])" "[CallPop, CallPop]"]
  by (simp add: Push_def Emplace_def Pop_def worker.simps)

text \<open>
  Claim C5, as amended. A \<^verbatim>\<open>Wait\<close> entered after the calls \<open>cs1\<close> on a group
  constructed with count \<open>N\<close>, and evaluating its predicate after the further calls
  \<open>cs2\<close>, returns exactly when the counter is 0, that is when the number of
  \<^verbatim>\<open>Done\<close> calls is congruent modulo \<open>2 ^ 64\<close> to \<open>N\<close> plus the added counts.
  When the counter never wraps (no \<^verbatim>\<open>Add\<close> carries it past \<open>2 ^ 64 - 1\<close> and no
  \<^verbatim>\<open>Done\<close> finds it at 0) it returns exactly when the number of \<^verbatim>\<open>Done\<close>
  calls equals \<open>N\<close> plus the added counts, and not before.
\<close>

theorem Wait_returns_at_zero:
  "(Wait_leave (wg_run_calls cs2 (Wait_enter (wg_run_calls cs1 (WaitGroup N)))) \<noteq> None) =
     (wg_count (wg_run_calls (cs1 @ cs2) (WaitGroup N)) = 0) \<and>
   (wg_count (wg_run_calls (cs1 @ cs2) (WaitGroup N)) = 0) =
     ((unat N + added (cs1 @ cs2)) mod 2 ^ 64 = dones (cs1 @ cs2) mod 2 ^ 64) \<and>
   (no_wrap (unat N) (cs1 @ cs2) \<longrightarrow>
      (Wait_leave (wg_run_calls cs2 (Wait_enter (wg_run_calls cs1 (WaitGroup N)))) \<noteq> None) =
      (dones (cs1 @ cs2) = unat N + added (cs1 @ cs2)))"
proof -
  let ?cs = "cs1 @ cs2"
  let ?c = "wg_count (wg_run_calls ?cs (WaitGroup N))"
  have leave: "(Wait_leave (wg_run_calls cs2 (Wait_enter (wg_run_calls cs1 (WaitGroup N)))) \<noteq> None) = (?c = 0)"
    by (simp add: Wait_leave_def wg_count_enter wg_run_calls_append)
  have "?c = of_nat (unat N + added ?cs) - of_nat (dones ?cs)"
    by (simp add: wg_count_calls WaitGroup_def)
  then have "(?c = 0) = ((of_nat (unat N + added ?cs) :: size_t) = of_nat (dones ?cs))"
    by (simp only: right_minus_eq)
  also have "\<dots> = ((unat N + added ?cs) mod 2 ^ 64 = dones ?cs mod 2 ^ 64)"
    unfolding word_of_nat_eq_iff take_bit_eq_mod by simp
  finally have modular: "(?c = 0) = ((unat N + added ?cs) mod 2 ^ 64 = dones ?cs mod 2 ^ 64)" .
  have exact: "(?c = 0) = (dones ?cs = unat N + added ?cs)" if "no_wrap (unat N) ?cs"
  proof -
    from that have "unat ?c + dones ?cs = unat N + added ?cs"
      using no_wrap_count [of "WaitGroup N" ?cs] by (simp add: WaitGroup_def)
    then show ?thesis
      by (auto simp: unat_eq_0)
  qed
  show ?thesis
    using leave modular exact by simp
qed

theorem Wait_returns_at_zero_witness:
  "no_wrap (unat (2 :: size_t)) ([CallDone] @ [CallAdd 1, CallDone, CallDone]) \<and>
   Wait_leave (wg_run_calls [CallAdd 1, CallDone, CallDone] (Wait_enter (wg_run_calls [CallDone] (WaitGroup 2)))) \<noteq> None \<and>
   dones ([CallDone] @ [CallAdd 1, CallDone, CallDone]) = unat (2 :: size_t) + added ([CallDone] @ [CallAdd 1, CallDone, CallDone]) \<and>
   no_wrap (unat (2 :: size_t)) ([CallDone] @ []) \<and>
   Wait_leave (wg_run_calls [] (Wait_enter (wg_run_calls [CallDone] (WaitGroup 2)))) = None"
  using Wait_returns_at_zero [of "[CallAdd 1, CallDone, CallDone]" "[CallDone]" 2]
    Wait_returns_at_zero [of "[]" "[CallDone]" 2]
  by (simp add: Wait_leave_def Wait_enter_def WaitGroup_def Add_def Done_def)

text \<open>
  The claim as stated fails where the counter wraps: on a group constructed with
  count 1, \<^verbatim>\<open>Add(SIZE_MAX)\<close> brings the counter to 0 and \<^verbatim>\<open>Wait\<close> returns
  although no \<^verbatim>\<open>Done\<close> was called and the registered count is \<open>2 ^ 64\<close>.
\<close>

theorem Wait_after_overflow_counterexample:
  "Wait (wg_run_calls [CallAdd (- 1)] (WaitGroup 1)) \<noteq> None \<and>
   dones [CallAdd (- 1)] = 0 \<and>
   unat (1 :: size_t) + added [CallAdd (- 1 :: size_t)] = 2 ^ 64"
  by (simp add: Wait_def Wait_leave_def Wait_enter_def WaitGroup_def Add_def unsigned_minus_1_eq_mask mask_eq_exp_minus_1)

text \<open>
  Claim C6. With a start vertex that is negative or not below the vertex count,
  \<^verbatim>\<open>parallelBFS\<close> returns at once, whatever the graph, the worker count and the
  scheduler: no flag is allocated or marked, and the loop body is never entered, so no
  task is pushed. It reports no error.
\<close>

theorem parallelBFS_invalid_start:
  "startVertex < 0 \<or> vertexCount g \<le> startVertex \<Longrightarrow>
   parallelBFS thread_count sched g startVertex = Inr \<lparr>marks = [], frontiers = []\<rparr> \<and>
   marked (marks \<lparr>marks = [], frontiers = []\<rparr>) = {}"
  by (auto simp: parallelBFS_def marked_def)

theorem parallelBFS_invalid_start_witness:
  "build 2 [(0, 1)] = Inr \<lparr>vertexCount = 2, matrix = [[1], []]\<rparr> \<and>
   parallelBFS 4 [] \<lparr>vertexCount = 2, matrix = [[1], []]\<rparr> (- 1) = Inr \<lparr>marks = [], frontiers = []\<rparr> \<and>
   parallelBFS 4 [] \<lparr>vertexCount = 2, matrix = [[1], []]\<rparr> 2 = Inr \<lparr>marks = [], frontiers = []\<rparr> \<and>
   parallelBFS 0 [] \<lparr>vertexCount = 2, matrix = [[1], []]\<rparr> 2 = Inr \<lparr>marks = [], frontiers = []\<rparr>"
proof -
  have "build 2 [(0, 1)] = Inr \<lparr>vertexCount = 2, matrix = [[1], []]\<rparr>"
    by code_simp
  then show ?thesis
    using parallelBFS_invalid_start [of "- 1" "\<lparr>vertexCount = 2, matrix = [[1], []]\<rparr>" 4 "[]"]
      parallelBFS_invalid_start [of 2 "\<lparr>vertexCount = 2, matrix = [[1], []]\<rparr>" 4 "[]"]
      parallelBFS_invalid_start [of 2 "\<lparr>vertexCount = 2, matrix = [[1], []]\<rparr>" 0 "[]"]
    by simp
qed

text \<open>
  Claim C7, as amended. \<^verbatim>\<open>Stop(s)\<close> stores \<open>s\<close> as the state, whatever the
  state was; \<^verbatim>\<open>Push\<close> and \<^verbatim>\<open>Pop\<close> leave the state as it is. Hence, over
  every sequence of calls in which \<^verbatim>\<open>Stop\<close> is never given RUNNING, a queue that is
  not RUNNING never becomes RUNNING again.
\<close>

theorem queue_state_transitions:
  "fst (Stop st q) = st \<and>
   fst (snd (Push v q)) = fst q \<and>
   (\<forall>r q'. Pop q = Some (r, q') \<longrightarrow> fst q' = fst q) \<and>
   ((\<forall>c\<in>set cs. c \<noteq> CallStop RUNNING) \<and> fst q \<noteq> RUNNING \<longrightarrow>
      fst (snd (run_calls cs q)) \<noteq> RUNNING)"
  using run_calls_stay_stopped [of cs q]
  by (auto simp: Stop_def Push_def Emplace_def Pop_def split: if_splits)

theorem queue_state_transitions_witness:
  "fst (Stop FORCE_STOPPED (RUNNING, [1 :: nat])) = FORCE_STOPPED \<and>
   Pop (STOPPED, [1 :: nat]) = Some (Some 1, (STOPPED, [])) \<and>
   fst (snd (run_calls [CallPush 2, CallStop FORCE_STOPPED, CallPop] (STOPPED, [1 :: nat]))) \<noteq> RUNNING"
  using queue_state_transitions [of FORCE_STOPPED "(RUNNING, [1 :: nat])" 2 "[]"]
    queue_state_transitions [of STOPPED "(STOPPED, [1 :: nat])" 2 "[CallPush 2, CallStop FORCE_STOPPED, CallPop]"]
  by (simp add: Pop_def Stop_def Push_def Emplace_def)

text \<open>
  The claim as stated fails: the enumeration \<^verbatim>\<open>State\<close> and \<^verbatim>\<open>Stop\<close> are
  public, and \<^verbatim>\<open>Stop(State::RUNNING)\<close> on a stopped queue makes it RUNNING again.
\<close>

theorem queue_restart_counterexample:
  "fst (Stop STOPPED (UnboundedBlockingQueue :: nat UnboundedBlockingQueue)) \<noteq> RUNNING \<and>
   fst (snd (run_calls [CallStop RUNNING] (Stop STOPPED (UnboundedBlockingQueue :: nat UnboundedBlockingQueue)))) = RUNNING"
  by (simp add: Stop_def UnboundedBlockingQueue_def)

text \<open>
  Claim C8, as amended. A pool constructed with count \<open>n\<close> has exactly \<open>n\<close>
  threads. The configured count is the value of \<^verbatim>\<open>TP_SIZE\<close> when that is set and
  positive, and otherwise the value of \<^verbatim>\<open>hardware_concurrency()\<close> as it is; it is
  positive exactly when \<^verbatim>\<open>TP_SIZE\<close> is positive or the reported hardware
  concurrency is not 0.
\<close>

theorem pool_worker_count:
  "length (tp_threads (ThreadPool n :: 'a ThreadPool)) = unat n \<and>
   length (tp_threads (pool env hc :: 'a ThreadPool)) = unat (THREAD_COUNT env hc) \<and>
   THREAD_COUNT env hc = (case env of Some r \<Rightarrow> if 0 <s r then r else hc | None \<Rightarrow> hc) \<and>
   (THREAD_COUNT env hc \<noteq> 0) = (case env of Some r \<Rightarrow> 0 <s r \<or> hc \<noteq> 0 | None \<Rightarrow> hc \<noteq> 0)"
proof -
  have len: "length (tp_threads (ThreadPool k :: 'a ThreadPool)) = unat k" for k
    by (simp add: ThreadPool_def spawn_threads_length)
  have "length (tp_threads (pool env hc :: 'a ThreadPool)) = unat (THREAD_COUNT env hc)"
    by (simp add: pool_def len unat_widen)
  moreover have "(THREAD_COUNT env hc \<noteq> 0) = (case env of Some r \<Rightarrow> 0 <s r \<or> hc \<noteq> 0 | None \<Rightarrow> hc \<noteq> 0)"
    by (auto simp: THREAD_COUNT_def split: option.splits)
  ultimately show ?thesis
    using len by (simp add: THREAD_COUNT_def)
qed

theorem pool_worker_count_witness:
  "length (tp_threads (ThreadPool 3 :: nat ThreadPool)) = 3 \<and>
   length (tp_threads (pool (Some 2) 8 :: nat ThreadPool)) = 2 \<and>
   length (tp_threads (pool (Some (- 1)) 8 :: nat ThreadPool)) = 8 \<and>
   THREAD_COUNT (Some 0) 8 \<noteq> 0"
  using pool_worker_count [where 'a = nat, of 3 "Some 2" 8]
    pool_worker_count [where 'a = nat, of 3 "Some (- 1)" 8]
    pool_worker_count [where 'a = nat, of 3 "Some 0" 8]
  by (simp add: THREAD_COUNT_def word_sless_alt)

text \<open>
  The claim as stated fails: nothing raises a count of 0. A pool constructed with 0
  has no thread, and with \<^verbatim>\<open>TP_SIZE\<close> unset or negative on a host whose
  \<^verbatim>\<open>hardware_concurrency()\<close> is 0 the configured count is 0.
\<close>

theorem pool_without_workers_counterexample:
  "\<not> 1 \<le> length (tp_threads (ThreadPool 0 :: nat ThreadPool)) \<and>
   THREAD_COUNT None 0 = 0 \<and>
   THREAD_COUNT (Some (- 5)) 0 = 0 \<and>
   \<not> 1 \<le> length (tp_threads (pool None 0 :: nat ThreadPool))"
  by (simp add: ThreadPool_def pool_def THREAD_COUNT_def word_sless_alt spawn_threads.simps)

text \<open>
  Claim C9. For a non-empty frontier of length \<open>L\<close> (a vector, so \<open>L < 2 ^ 63\<close>) and
  a worker count \<open>w \<ge> 1\<close>, the head of the loop body computes the chunk size
  \<open>c = (L + w - 1) div w\<close>, which is the ceiling of \<open>L / w\<close> (\<open>w * (c - 1) < L \<le> w * c\<close>);
  the chunks of the pushed tasks, in push order, are consecutive pieces of the frontier
  that together make up the frontier, each of length \<open>c\<close> but the last, which has
  between 1 and \<open>c\<close> vertices; and the wait group is constructed with a count equal
  to the number \<open>k\<close> of tasks, \<open>k = 1 + (L - 1) div c\<close>, the ceiling of \<open>L / c\<close>.
  The \<^verbatim>\<open>size_t\<close> computations do not wrap.
\<close>

theorem level_chunks:
  assumes "currentLevel \<noteq> []" and "length currentLevel < 2 ^ 63" and "thread_count \<noteq> 0"
  shows "\<exists>s. start_level thread_count flags currentLevel = Inr s \<and>
    (let L = length currentLevel; w = unat thread_count; c = (L + w - 1) div w; k = length (tasks s)
     in w * (c - 1) < L \<and> L \<le> w * c \<and>
        concat (map chunk (tasks s)) = currentLevel \<and>
        (\<forall>i<k. length (chunk (tasks s ! i)) = (if Suc i < k then c else L - i * c) \<and>
               0 < length (chunk (tasks s ! i)) \<and> length (chunk (tasks s ! i)) \<le> c) \<and>
        unat (wg_count (wg s)) = k \<and>
        k = 1 + (L - 1) div c \<and>
        c * (k - 1) < L \<and> L \<le> c * k)"
proof -
  define L where "L = length currentLevel"
  define w where "w = unat thread_count"
  define c where "c = (L + w - 1) div w"
  define k where "k = (L + c - 1) div c"
  define s where "s = \<lparr>visited = flags, nextLevel = [], wg = WaitGroup (of_nat k),
    tasks = map (\<lambda>i. \<lparr>chunk = take c (drop (i * c) currentLevel), row = [],
      localNextLevel = [], stage = Scanning\<rparr>) [0..<k]\<rparr>"
  from assms have start: "start_level thread_count flags currentLevel = Inr s"
    unfolding s_def k_def c_def w_def L_def by (rule start_level_value)
  from assms have L: "0 < L" "L < 2 ^ 63"
    by (simp_all add: L_def)
  from assms(3) have w: "0 < w"
    by (simp add: w_def unat_gt_0)
  from L w have c: "0 < c" "c \<le> L"
    unfolding c_def by (simp_all only: ceil_div_pos ceil_div_le)
  from L c have k: "0 < k" "k \<le> L"
    unfolding k_def by (simp_all only: ceil_div_pos ceil_div_le)
  have len: "length (tasks s) = k"
    by (simp add: s_def)
  from L(1) w have ceil_w: "w * (c - 1) < L \<and> L \<le> w * c"
    unfolding c_def by (rule ceil_div_bounds)
  from L(1) c(1) have ceil_c: "c * (k - 1) < L \<and> L \<le> c * k"
    unfolding k_def by (rule ceil_div_bounds)
  have "concat (map chunk (tasks s)) = take (k * c) currentLevel"
    using concat_chunks [of c currentLevel k] by (simp add: s_def comp_def)
  with ceil_c have cover: "concat (map chunk (tasks s)) = currentLevel"
    by (simp add: L_def mult.commute)
  have sizes: "length (chunk (tasks s ! i)) = (if Suc i < k then c else L - i * c) \<and>
      0 < length (chunk (tasks s ! i)) \<and> length (chunk (tasks s ! i)) \<le> c" if "i < k" for i
  proof -
    from that have chunk: "length (chunk (tasks s ! i)) = min (L - i * c) c"
      by (simp add: s_def L_def)
    from that c have before: "i * c < L"
      using chunks_before [of c i L] by (simp add: k_def)
    show ?thesis
    proof (cases "Suc i < k")
      case True
      with c have "Suc i * c < L"
        using chunks_before [of c "Suc i" L] by (simp add: k_def)
      with chunk c True show ?thesis
        by simp
    next
      case False
      with that have "i = k - 1"
        by simp
      with ceil_c have "L - i * c \<le> c"
        using k by (cases k) (simp_all add: mult.commute le_diff_conv)
      with chunk before False show ?thesis
        by simp
    qed
  qed
  have "unat (of_nat k :: size_t) = k"
    using k L by (intro unat_size_of_nat) simp
  then have count: "unat (wg_count (wg s)) = k"
    by (simp add: s_def WaitGroup_def)
  from L(1) c(1) have quot: "k = 1 + (L - 1) div c"
    unfolding k_def by (rule ceil_div_Suc)
  from sizes have sizes': "\<forall>i<k. length (chunk (tasks s ! i)) = (if Suc i < k then c else L - i * c) \<and>
      0 < length (chunk (tasks s ! i)) \<and> length (chunk (tasks s ! i)) \<le> c"
    by blast
  have final: "w * (c - 1) < L \<and> L \<le> w * c \<and>
      concat (map chunk (tasks s)) = currentLevel \<and>
      (\<forall>i<k. length (chunk (tasks s ! i)) = (if Suc i < k then c else L - i * c) \<and>
             0 < length (chunk (tasks s ! i)) \<and> length (chunk (tasks s ! i)) \<le> c) \<and>
      unat (wg_count (wg s)) = k \<and>
      k = 1 + (L - 1) div c \<and>
      c * (k - 1) < L \<and> L \<le> c * k"
    using ceil_w cover sizes' count quot ceil_c by (intro conjI) blast+
  note final' = final [unfolded len [symmetric] c_def w_def L_def]
  show ?thesis
    unfolding Let_def by (rule exI [of _ s]) (rule conjI [OF start final'])
qed

theorem level_chunks_witness:
  "[5, 6, 7 :: int] \<noteq> [] \<and> length [5, 6, 7 :: int] < 2 ^ 63 \<and> (2 :: unsigned_int) \<noteq> 0 \<and>
   start_level 2 [] [5, 6, 7] =
     Inr \<lparr>visited = [], nextLevel = [], wg = WaitGroup 2,
          tasks = [\<lparr>chunk = [5, 6], row = [], localNextLevel = [], stage = Scanning\<rparr>,
                   \<lparr>chunk = [7], row = [], localNextLevel = [], stage = Scanning\<rparr>]\<rparr> \<and>
   (3 + unat (2 :: unsigned_int) - 1) div unat (2 :: unsigned_int) = (2 :: nat)"
proof -
  have "\<exists>s. start_level 2 [] [5, 6, 7] = Inr s \<and>
    (let L = length [5, 6, 7 :: int]; w = unat (2 :: unsigned_int); c = (L + w - 1) div w;
         k = length (tasks s)
     in w * (c - 1) < L \<and> L \<le> w * c \<and>
        concat (map chunk (tasks s)) = [5, 6, 7] \<and>
        (\<forall>i<k. length (chunk (tasks s ! i)) = (if Suc i < k then c else L - i * c) \<and>
               0 < length (chunk (tasks s ! i)) \<and> length (chunk (tasks s ! i)) \<le> c) \<and>
        unat (wg_count (wg s)) = k \<and>
        k = 1 + (L - 1) div c \<and>
        c * (k - 1) < L \<and> L \<le> c * k)"
    by (rule level_chunks) simp_all
  moreover have "start_level 2 [] [5, 6, 7] =
     Inr \<lparr>visited = [], nextLevel = [], wg = WaitGroup 2,
          tasks = [\<lparr>chunk = [5, 6], row = [], localNextLevel = [], stage = Scanning\<rparr>,
                   \<lparr>chunk = [7], row = [], localNextLevel = [], stage = Scanning\<rparr>]\<rparr>"
    by code_simp
  ultimately show ?thesis
    by simp
qed

text \<open>
  Claim C10. \<^verbatim>\<open>Done\<close> on a counter that is 0 wraps it to \<open>2 ^ 64 - 1\<close>: the
  counter is then not 0, and the predicate of \<^verbatim>\<open>Wait\<close> is false, for a call that
  starts afterwards as for one that was already waiting.
\<close>

theorem Done_at_zero_wraps:
  "wg_count (Done (grp\<lparr>wg_count := 0\<rparr>)) = - 1 \<and>
   unat (wg_count (Done (grp\<lparr>wg_count := 0\<rparr>))) = 2 ^ 64 - 1 \<and>
   wg_count (Done (grp\<lparr>wg_count := 0\<rparr>)) \<noteq> 0 \<and>
   Wait (Done (grp\<lparr>wg_count := 0\<rparr>)) = None \<and>
   Wait_leave (Done (Wait_enter (grp\<lparr>wg_count := 0\<rparr>))) = None"
  by (simp add: Done_def Wait_def Wait_leave_def Wait_enter_def unsigned_minus_1_eq_mask mask_eq_exp_minus_1)

end
